theory Spec2Isabelle
  imports Main "HOL-Library.Word" "HOL-Library.Sublist"
begin

unbundle bit_operations_syntax

section \<open>Colour arguments\<close>

text \<open>
  A C string is modelled by the list of its bytes before the terminating NUL, so
  \<open>strlen\<close> is \<open>length\<close> and \<open>color[0]\<close> of the empty string (the terminator) is not
  \<open>'#'\<close>. Option arguments and configuration lines are far shorter than \<open>2^31\<close> bytes, so
  the conversion of \<open>strlen\<close>'s result to \<open>int\<close> in \<open>parse_color\<close> is exact and the length
  is kept as an \<open>int\<close>.
\<close>

subsection \<open>The C library's \<open>strtoul\<close> in base 16\<close>

text \<open>
  \<open>strtoul\<close> belongs to the C library, not to this program. Its model follows the C
  standard (7.22.1.4) for base 16 in the C locale: leading white space is skipped, one
  optional sign is read, an optional \<open>0x\<close>/\<open>0X\<close> prefix is read when a hexadecimal digit
  follows it, then the longest run of hexadecimal digits is converted. No digits give 0, a
  value beyond \<open>ULONG_MAX\<close> gives \<open>ULONG_MAX\<close>, and a minus sign negates the value in the
  type \<open>unsigned long\<close> (64 bits here; \<open>parse_color\<close> keeps the low 32 bits only, and the
  at most eight characters it passes never reach the overflow case).
\<close>

definition isspace :: "char \<Rightarrow> bool" where
  "isspace c = (let n = (of_char c :: nat) in n = 32 \<or> (9 \<le> n \<and> n \<le> 13))"

definition isxdigit :: "char \<Rightarrow> bool" where
  "isxdigit c = (let n = (of_char c :: nat) in
     (48 \<le> n \<and> n \<le> 57) \<or> (65 \<le> n \<and> n \<le> 70) \<or> (97 \<le> n \<and> n \<le> 102))"

definition xdigit_val :: "char \<Rightarrow> nat" where
  "xdigit_val c = (let n = (of_char c :: nat) in
     if 48 \<le> n \<and> n \<le> 57 then n - 48
     else if 65 \<le> n \<and> n \<le> 70 then n - 55
     else n - 87)"

fun strtoul_digits :: "nat \<Rightarrow> string \<Rightarrow> nat" where
  "strtoul_digits acc [] = acc"
| "strtoul_digits acc (c # cs) =
     (if isxdigit c then strtoul_digits (16 * acc + xdigit_val c) cs else acc)"

definition strtoul_sign :: "string \<Rightarrow> bool \<times> string" where
  "strtoul_sign s =
     (case s of
        [] \<Rightarrow> (False, s)
      | c # r \<Rightarrow> if c = CHR ''-'' then (True, r)
                else if c = CHR ''+'' then (False, r)
                else (False, s))"

definition strtoul_prefix :: "string \<Rightarrow> string" where
  "strtoul_prefix s =
     (case s of
        a # b # d # r \<Rightarrow>
          if a = CHR ''0'' \<and> (b = CHR ''x'' \<or> b = CHR ''X'') \<and> isxdigit d then d # r else s
      | _ \<Rightarrow> s)"

definition strtoul16 :: "string \<Rightarrow> 64 word" where
  "strtoul16 s =
     (let (neg, t) = strtoul_sign (dropWhile isspace s);
          v = strtoul_digits 0 (strtoul_prefix t)
      in if 2 ^ 64 \<le> v then - 1
         else if neg then - word_of_nat v
         else word_of_nat v)"

subsection \<open>\<open>parse_color\<close>\<close>

definition parse_color :: "string \<Rightarrow> 32 word" where
  "parse_color arg =
     (let color = (case arg of [] \<Rightarrow> arg | c # r \<Rightarrow> if c = CHR ''#'' then r else arg);
          len = int (length color)
      in if len \<noteq> 6 \<and> len \<noteq> 8 then 0xFFFFFFFF
         else
           let res = (ucast (strtoul16 color) :: 32 word)
           in if length color = 6 then push_bit 8 res OR 0xFF else res)"

text \<open>
  The reading of the claim: what is left after at most one leading \<open>#\<close> is taken away, and
  the value of a string of hexadecimal digits.
\<close>

definition strip_hash :: "string \<Rightarrow> string" where
  "strip_hash s = (if s \<noteq> [] \<and> hd s = CHR ''#'' then tl s else s)"

definition hex_value :: "string \<Rightarrow> nat" where
  "hex_value s = foldl (\<lambda>a c. 16 * a + xdigit_val c) 0 s"

section \<open>The state of the process\<close>

text \<open>
  \<open>main.c\<close> keeps one \<open>struct swaylock_state\<close> in static storage and one
  \<open>struct swaylock_surface\<close> per output on the list \<open>state.surfaces\<close>. The structures are
  declared in \<open>swaylock.h\<close>, which is not among the sources; the records below hold the
  fields that \<open>main.c\<close> reads or writes, under the names it uses for them. A pointer to a
  Wayland object is kept as the boolean "the object exists": it is set where \<open>main.c\<close>
  obtains the object and, for the session lock, cleared where \<open>main.c\<close> destroys it. The
  enumerations carry the values \<open>main.c\<close> names. An integer field whose declaration is in
  the header is kept as a word of 32 bits, the width of \<open>int\<close> and of \<open>uint32_t\<close>; \<open>main.c\<close>
  only assigns, compares and increments these fields.
\<close>

datatype auth_state = AUTH_STATE_IDLE | AUTH_STATE_VALIDATING | AUTH_STATE_INVALID

datatype background_mode =
    BACKGROUND_MODE_STRETCH
  | BACKGROUND_MODE_FILL
  | BACKGROUND_MODE_FIT
  | BACKGROUND_MODE_CENTER
  | BACKGROUND_MODE_TILE
  | BACKGROUND_MODE_SOLID_COLOR
  | BACKGROUND_MODE_INVALID

datatype cairo_content_t = CAIRO_CONTENT_COLOR | CAIRO_CONTENT_ALPHA | CAIRO_CONTENT_COLOR_ALPHA

text \<open>An image surface is read through \<open>cairo_surface_get_content\<close> only.\<close>

type_synonym cairo_surface_t = cairo_content_t

record swaylock_image =
  image_path :: string
  image_output_name :: "string option"
  cairo_surface :: cairo_surface_t

record swaylock_args =
  mode :: background_mode
  background :: "32 word"
  ignore_empty :: bool
  show_failed_attempts :: bool
  args_daemonize :: bool
  ready_fd :: int

text \<open>
  \<open>sid\<close> stands for the address of the structure: it names the allocation made by
  \<open>calloc\<close> in \<open>handle_global\<close>, and the listeners receive it as their \<open>data\<close> pointer.
  An address can be handed out again after \<open>free\<close>; the name of an allocation is not, and
  \<open>next_sid\<close> in the state counts the allocations made so far.
\<close>

record swaylock_surface =
  sid :: nat
  output_global_name :: "32 word"
  output_name :: "string option"
  surface_image :: "cairo_surface_t option"
  wl_surface :: bool
  child :: bool
  subsurface :: bool
  ext_session_lock_surface_v1 :: bool
  created :: bool
  dirty :: bool
  width :: "32 word"
  height :: "32 word"
  scale :: "32 word"
  subpixel :: "32 word"

record swaylock_state =
  run_display :: bool
  locked :: bool
  auth_state :: auth_state
  failed_attempts :: "32 word"
  password :: string
  args :: swaylock_args
  images :: "swaylock_image list"
  surfaces :: "swaylock_surface list"
  compositor :: bool
  subcompositor :: bool
  shm :: bool
  ext_session_lock_manager_v1 :: bool
  ext_session_lock_v1 :: bool
  next_sid :: nat

section \<open>Effects and outcomes\<close>

text \<open>
  Every call that leaves \<open>main.c\<close> (a Wayland request, a system call, a function of another
  file of the program) is recorded, in order, as an \<open>action\<close>. \<open>render\<close> is defined in
  \<open>render.c\<close>: the call is recorded with the surface as it is handed over. A call that
  hands out descriptors is recorded with the numbers it returned: \<open>Pipe\<close> with the two ends
  (\<open>None\<close> when \<open>pipe\<close> fails), \<open>OpenFile\<close> with the path and the descriptor. A function of
  the model returns the actions it performed and how it ended: it returned a value, it
  ended the process with a status (\<open>exit\<close>, or \<open>return\<close> from \<open>main\<close>), or it is still
  waiting for input that the environment has not supplied.
\<close>

datatype log_importance = LOG_ERROR | LOG_DEBUG

datatype action =
    Log log_importance string
  | RegistryBind "32 word" string "32 word"
  | SeatAddListener
  | OutputAddListener nat
  | CompositorCreateSurface nat
  | GetSubsurface nat
  | SubsurfaceSetSync nat
  | GetLockSurface nat
  | LockSurfaceAddListener nat
  | SetOpaqueRegion nat
  | AckConfigure nat "32 word"
  | Render swaylock_surface
  | LockSurfaceDestroy nat
  | SubsurfaceDestroy nat
  | SurfaceDestroy nat
  | DestroyBuffers nat
  | OutputRelease nat
  | Free nat
  | ScheduleAuthIdle
  | DisplayConnect
  | GetRegistry
  | Roundtrip
  | Dispatch
  | Flush
  | LockManagerLock
  | WriteFd int string
  | CloseFd int
  | Pipe "(int \<times> int) option"
  | Fork
  | Setsid
  | OpenFile string int
  | Dup2 int int
  | Chdir string
  | ReadFd int
  | LoopAddFds
  | UnlockAndDestroy

datatype 'a outcome = Returns 'a | Exits int | Blocks

type_synonym 'a eff = "action list \<times> 'a outcome"

definition ret :: "'a \<Rightarrow> 'a eff" where
  "ret x = ([], Returns x)"

definition seq :: "'a eff \<Rightarrow> ('a \<Rightarrow> 'b eff) \<Rightarrow> 'b eff" where
  "seq m f =
     (case m of
        (as, Returns x) \<Rightarrow> (case f x of (bs, r) \<Rightarrow> (as @ bs, r))
      | (as, Exits n) \<Rightarrow> (as, Exits n)
      | (as, Blocks) \<Rightarrow> (as, Blocks))"

definition EXIT_SUCCESS :: int where "EXIT_SUCCESS = 0"
definition EXIT_FAILURE :: int where "EXIT_FAILURE = 1"

section \<open>Surfaces\<close>

fun strcmp :: "string \<Rightarrow> string \<Rightarrow> int" where
  "strcmp [] [] = 0"
| "strcmp [] (y # ys) = - int (of_char y)"
| "strcmp (x # xs) [] = int (of_char x)"
| "strcmp (x # xs) (y # ys) =
     (if x = y then strcmp xs ys else int (of_char x) - int (of_char y))"

definition lenient_strcmp :: "string option \<Rightarrow> string option \<Rightarrow> int" where
  "lenient_strcmp a b =
     (case (a, b) of
        (None, None) \<Rightarrow> 0
      | (None, Some y) \<Rightarrow> - 1
      | (Some x, None) \<Rightarrow> 1
      | (Some x, Some y) \<Rightarrow> strcmp x y)"

fun select_image_from ::
  "swaylock_image list \<Rightarrow> swaylock_surface \<Rightarrow> cairo_surface_t option \<Rightarrow> cairo_surface_t option"
where
  "select_image_from [] surface default_image = default_image"
| "select_image_from (img # imgs) surface default_image =
     (if lenient_strcmp (image_output_name img) (output_name surface) = 0
      then Some (cairo_surface img)
      else if image_output_name img = None
      then select_image_from imgs surface (Some (cairo_surface img))
      else select_image_from imgs surface default_image)"

definition select_image :: "swaylock_state \<Rightarrow> swaylock_surface \<Rightarrow> cairo_surface_t option" where
  "select_image state surface = select_image_from (images state) surface None"

definition surface_is_opaque :: "swaylock_state \<Rightarrow> swaylock_surface \<Rightarrow> bool" where
  "surface_is_opaque state surface =
     (case surface_image surface of
        Some img \<Rightarrow> img = CAIRO_CONTENT_COLOR
      | None \<Rightarrow> background (args state) AND 0xff = 0xff)"

text \<open>
  \<open>create_surface\<close> asserts that the compositor handed out the objects it asked for;
  libwayland returns \<open>NULL\<close> only when memory is exhausted, and the model takes the
  assertions to hold.
\<close>

definition render :: "swaylock_surface \<Rightarrow> action list" where
  "render surface = [Render surface]"

definition create_surface :: "swaylock_state \<Rightarrow> swaylock_surface \<Rightarrow> action list \<times> swaylock_surface" where
  "create_surface state surface0 =
     (let surface = surface0\<lparr>surface_image := select_image state surface0\<rparr>;
          surface = surface\<lparr>wl_surface := True\<rparr>;
          surface = surface\<lparr>child := True\<rparr>;
          surface = surface\<lparr>subsurface := True\<rparr>;
          surface = surface\<lparr>ext_session_lock_surface_v1 := True\<rparr>
      in ([CompositorCreateSurface (sid surface), CompositorCreateSurface (sid surface),
           GetSubsurface (sid surface), SubsurfaceSetSync (sid surface),
           GetLockSurface (sid surface), LockSurfaceAddListener (sid surface)]
          @ (if surface_is_opaque state surface
                \<and> mode (args state) \<noteq> BACKGROUND_MODE_CENTER
                \<and> mode (args state) \<noteq> BACKGROUND_MODE_FIT
             then [SetOpaqueRegion (sid surface)] else []),
          surface\<lparr>created := True\<rparr>))"

definition destroy_surface :: "swaylock_surface \<Rightarrow> swaylock_state \<Rightarrow> action list \<times> swaylock_state" where
  "destroy_surface surface state =
     ((if ext_session_lock_surface_v1 surface then [LockSurfaceDestroy (sid surface)] else [])
      @ (if subsurface surface then [SubsurfaceDestroy (sid surface)] else [])
      @ (if child surface then [SurfaceDestroy (sid surface)] else [])
      @ (if wl_surface surface then [SurfaceDestroy (sid surface)] else [])
      @ [DestroyBuffers (sid surface), OutputRelease (sid surface), Free (sid surface)],
      state\<lparr>surfaces := remove1 surface (surfaces state)\<rparr>)"

definition ext_session_lock_surface_v1_handle_configure ::
  "swaylock_surface \<Rightarrow> 32 word \<Rightarrow> 32 word \<Rightarrow> 32 word \<Rightarrow> action list \<times> swaylock_surface"
where
  "ext_session_lock_surface_v1_handle_configure surface0 serial w h =
     (let surface = surface0\<lparr>width := w\<rparr>;
          surface = surface\<lparr>height := h\<rparr>;
          ack = [AckConfigure (sid surface) serial];
          surface = surface\<lparr>dirty := True\<rparr>
      in (ack @ render surface, surface))"

definition damage_state :: "swaylock_state \<Rightarrow> action list \<times> swaylock_state" where
  "damage_state state =
     (let marked = map (\<lambda>surface. surface\<lparr>dirty := True\<rparr>) (surfaces state)
      in (concat (map render marked), state\<lparr>surfaces := marked\<rparr>))"

definition handle_wl_output_geometry ::
  "swaylock_state \<Rightarrow> swaylock_surface \<Rightarrow> 32 word \<Rightarrow> action list \<times> swaylock_surface"
where
  "handle_wl_output_geometry state surface0 sp =
     (let surface = surface0\<lparr>subpixel := sp\<rparr>
      in if run_display state
         then (let surface = surface\<lparr>dirty := True\<rparr> in (render surface, surface))
         else ([], surface))"

definition handle_wl_output_mode ::
  "swaylock_state \<Rightarrow> swaylock_surface \<Rightarrow> action list \<times> swaylock_surface"
where
  "handle_wl_output_mode state surface = ([], surface)"

definition handle_wl_output_done ::
  "swaylock_state \<Rightarrow> swaylock_surface \<Rightarrow> action list \<times> swaylock_surface"
where
  "handle_wl_output_done state surface =
     (if \<not> created surface \<and> run_display state then create_surface state surface
      else ([], surface))"

definition handle_wl_output_scale ::
  "swaylock_state \<Rightarrow> swaylock_surface \<Rightarrow> 32 word \<Rightarrow> action list \<times> swaylock_surface"
where
  "handle_wl_output_scale state surface0 factor =
     (let surface = surface0\<lparr>scale := factor\<rparr>
      in if run_display state
         then (let surface = surface\<lparr>dirty := True\<rparr> in (render surface, surface))
         else ([], surface))"

definition handle_wl_output_name ::
  "swaylock_state \<Rightarrow> swaylock_surface \<Rightarrow> string \<Rightarrow> action list \<times> swaylock_surface"
where
  "handle_wl_output_name state surface name = ([], surface\<lparr>output_name := Some name\<rparr>)"

definition handle_wl_output_description ::
  "swaylock_state \<Rightarrow> swaylock_surface \<Rightarrow> action list \<times> swaylock_surface"
where
  "handle_wl_output_description state surface = ([], surface)"

section \<open>The session lock and the registry\<close>

definition ext_session_lock_v1_handle_locked :: "swaylock_state \<Rightarrow> swaylock_state eff" where
  "ext_session_lock_v1_handle_locked state = ret (state\<lparr>locked := True\<rparr>)"

definition ext_session_lock_v1_handle_finished :: "swaylock_state \<Rightarrow> swaylock_state eff" where
  "ext_session_lock_v1_handle_finished state =
     ([Log LOG_ERROR ''Failed to lock session -- is another lockscreen running?''], Exits 2)"

definition new_surface :: "swaylock_state \<Rightarrow> 32 word \<Rightarrow> swaylock_surface" where
  "new_surface state name =
     \<lparr>sid = next_sid state, output_global_name = name, output_name = None,
      surface_image = None, wl_surface = False, child = False, subsurface = False,
      ext_session_lock_surface_v1 = False, created = False, dirty = False,
      width = 0, height = 0, scale = 0, subpixel = 0\<rparr>"

definition handle_global ::
  "32 word \<Rightarrow> string \<Rightarrow> 32 word \<Rightarrow> swaylock_state \<Rightarrow> swaylock_state eff"
where
  "handle_global name interface version state =
     (if interface = ''wl_compositor''
      then ([RegistryBind name ''wl_compositor'' 4], Returns (state\<lparr>compositor := True\<rparr>))
      else if interface = ''wl_subcompositor''
      then ([RegistryBind name ''wl_subcompositor'' 1], Returns (state\<lparr>subcompositor := True\<rparr>))
      else if interface = ''wl_shm''
      then ([RegistryBind name ''wl_shm'' 1], Returns (state\<lparr>shm := True\<rparr>))
      else if interface = ''wl_seat''
      then ([RegistryBind name ''wl_seat'' 4, SeatAddListener], Returns state)
      else if interface = ''wl_output''
      then (let surface = new_surface state name
            in ([RegistryBind name ''wl_output'' 4, OutputAddListener (sid surface)],
                Returns (state\<lparr>surfaces := surface # surfaces state,
                                next_sid := Suc (next_sid state)\<rparr>)))
      else if interface = ''ext_session_lock_manager_v1''
      then ([RegistryBind name ''ext_session_lock_manager_v1'' 1],
            Returns (state\<lparr>ext_session_lock_manager_v1 := True\<rparr>))
      else ret state)"

definition handle_global_remove :: "32 word \<Rightarrow> swaylock_state \<Rightarrow> swaylock_state eff" where
  "handle_global_remove name state =
     (case find (\<lambda>surface. output_global_name surface = name) (surfaces state) of
        Some surface \<Rightarrow> (case destroy_surface surface state of (as, state') \<Rightarrow> (as, Returns state'))
      | None \<Rightarrow> ret state)"

section \<open>Event dispatch\<close>

text \<open>
  \<open>wl_display_dispatch\<close> and \<open>wl_display_roundtrip\<close> belong to libwayland. They read the
  events the server sent and call the listener registered for each (the four listener
  tables of \<open>main.c\<close>). An event for an object whose proxy has been destroyed is
  discarded by libwayland: an output event reaches its listener while the surface, which
  owns the \<open>wl_output\<close>, is on the list; a configure event while it also owns a lock
  surface; a lock event while the lock object exists. Input events go to \<open>seat.c\<close> and are
  not part of this model.
\<close>

datatype wl_event =
    Global "32 word" string "32 word"
  | GlobalRemove "32 word"
  | OutputGeometry nat "32 word"
  | OutputMode nat
  | OutputDone nat
  | OutputScale nat "32 word"
  | OutputName nat string
  | OutputDescription nat
  | LockLocked
  | LockFinished
  | LockSurfaceConfigure nat "32 word" "32 word" "32 word"

definition put_surface :: "swaylock_surface \<Rightarrow> swaylock_state \<Rightarrow> swaylock_state" where
  "put_surface surface state =
     state\<lparr>surfaces := map (\<lambda>x. if sid x = sid surface then surface else x) (surfaces state)\<rparr>"

definition with_surface ::
  "nat \<Rightarrow> (swaylock_surface \<Rightarrow> bool) \<Rightarrow> (swaylock_surface \<Rightarrow> action list \<times> swaylock_surface)
   \<Rightarrow> swaylock_state \<Rightarrow> swaylock_state eff"
where
  "with_surface i alive listener state =
     (case find (\<lambda>x. sid x = i) (surfaces state) of
        None \<Rightarrow> ret state
      | Some surface \<Rightarrow>
          if alive surface
          then (case listener surface of (as, surface') \<Rightarrow> (as, Returns (put_surface surface' state)))
          else ret state)"

fun dispatch_event :: "wl_event \<Rightarrow> swaylock_state \<Rightarrow> swaylock_state eff" where
  "dispatch_event (Global name interface version) state =
     handle_global name interface version state"
| "dispatch_event (GlobalRemove name) state = handle_global_remove name state"
| "dispatch_event (OutputGeometry i sp) state =
     with_surface i (\<lambda>x. True) (\<lambda>x. handle_wl_output_geometry state x sp) state"
| "dispatch_event (OutputMode i) state =
     with_surface i (\<lambda>x. True) (handle_wl_output_mode state) state"
| "dispatch_event (OutputDone i) state =
     with_surface i (\<lambda>x. True) (handle_wl_output_done state) state"
| "dispatch_event (OutputScale i factor) state =
     with_surface i (\<lambda>x. True) (\<lambda>x. handle_wl_output_scale state x factor) state"
| "dispatch_event (OutputName i name) state =
     with_surface i (\<lambda>x. True) (\<lambda>x. handle_wl_output_name state x name) state"
| "dispatch_event (OutputDescription i) state =
     with_surface i (\<lambda>x. True) (handle_wl_output_description state) state"
| "dispatch_event LockLocked state =
     (if ext_session_lock_v1 state then ext_session_lock_v1_handle_locked state else ret state)"
| "dispatch_event LockFinished state =
     (if ext_session_lock_v1 state then ext_session_lock_v1_handle_finished state else ret state)"
| "dispatch_event (LockSurfaceConfigure i serial w h) state =
     with_surface i ext_session_lock_surface_v1
       (\<lambda>x. ext_session_lock_surface_v1_handle_configure x serial w h) state"

fun dispatch_events :: "wl_event list \<Rightarrow> swaylock_state \<Rightarrow> swaylock_state eff" where
  "dispatch_events [] state = ret state"
| "dispatch_events (e # es) state = seq (dispatch_event e state) (dispatch_events es)"

text \<open>What one call of \<open>wl_display_dispatch\<close> or \<open>wl_display_roundtrip\<close> meets.\<close>

datatype dispatch_in = Failed | Events "wl_event list"

section \<open>The callbacks of the event loop\<close>

text \<open>
  \<open>loop_poll\<close> (in \<open>loop.c\<close>) calls the callback of every descriptor that \<open>poll\<close> reported,
  with the reported bits. \<open>read_comm_reply\<close> (in \<open>comm.c\<close>) returns \<open>false\<close> when it cannot
  read a reply, and otherwise stores the verdict: the environment supplies \<open>None\<close> or the
  verdict. The \<open>poll\<close> bits are those of \<open>poll.h\<close> on Linux.
\<close>

definition POLLIN :: "16 word" where "POLLIN = 0x001"
definition POLLERR :: "16 word" where "POLLERR = 0x008"
definition POLLHUP :: "16 word" where "POLLHUP = 0x010"

datatype loop_event =
    DisplayIn dispatch_in
  | CommIn "16 word" "bool option"
  | TermIn

definition display_in :: "dispatch_in \<Rightarrow> swaylock_state \<Rightarrow> swaylock_state eff" where
  "display_in d state =
     (case d of
        Failed \<Rightarrow> ([Dispatch], Returns (state\<lparr>run_display := False\<rparr>))
      | Events es \<Rightarrow> seq ([Dispatch], Returns state) (dispatch_events es))"

definition comm_in :: "16 word \<Rightarrow> bool option \<Rightarrow> swaylock_state \<Rightarrow> swaylock_state eff" where
  "comm_in revents reply state =
     (if revents AND POLLIN \<noteq> 0 then
        (case reply of
           None \<Rightarrow> ([], Exits EXIT_FAILURE)
         | Some auth_success \<Rightarrow>
             if auth_success then ret (state\<lparr>run_display := False\<rparr>)
             else
               (let state = state\<lparr>auth_state := AUTH_STATE_INVALID\<rparr>;
                    state = state\<lparr>failed_attempts := failed_attempts state + 1\<rparr>
                in case damage_state state of
                     (as, state') \<Rightarrow> (ScheduleAuthIdle # as, Returns state')))
      else if revents AND (POLLHUP OR POLLERR) \<noteq> 0 then
        ([Log LOG_ERROR ''Password checking subprocess crashed; exiting.''], Exits EXIT_FAILURE)
      else ret state)"

definition term_in :: "swaylock_state \<Rightarrow> swaylock_state eff" where
  "term_in state = ret (state\<lparr>run_display := False\<rparr>)"

fun callback :: "loop_event \<Rightarrow> swaylock_state \<Rightarrow> swaylock_state eff" where
  "callback (DisplayIn d) state = display_in d state"
| "callback (CommIn revents reply) state = comm_in revents reply state"
| "callback TermIn state = term_in state"

fun loop_poll :: "loop_event list \<Rightarrow> swaylock_state \<Rightarrow> swaylock_state eff" where
  "loop_poll [] state = ret state"
| "loop_poll (e # es) state = seq (callback e state) (loop_poll es)"

section \<open>\<open>main\<close>\<close>

text \<open>
  The model of \<open>main\<close> starts where the options have been read (\<open>state.args\<close> and
  \<open>state.images\<close> are given), the password buffer and the signal pipe exist, and the
  display is about to be connected. Everything \<open>main\<close>
  learns from outside is in the \<open>environment\<close>: whether the connection succeeds, what each
  round trip and each dispatch meets, what \<open>write\<close> on the readiness descriptor returns,
  what the system calls of \<open>daemonize\<close> return, and, for each turn of the event loop,
  whether the flush succeeds and which callbacks \<open>loop_poll\<close> calls. When the events
  supplied run out while a loop is still waiting, the outcome is \<open>Blocks\<close>.

  For \<open>daemonize\<close> the environment says whether \<open>pipe\<close> fails or which two descriptors it
  hands out (\<open>fds[0]\<close> and \<open>fds[1]\<close>), and what \<open>fork\<close> returns. Where \<open>fork\<close> returns
  0 (the child) it gives the descriptor that \<open>open\<close> returns for \<open>/dev/null\<close>, whether \<open>chdir\<close>
  succeeds and what \<open>write\<close> on the pipe returns; where \<open>fork\<close> returns anything else (the
  parent, or \<open>fork\<close> has failed) it gives what \<open>read\<close> on the pipe returns and the byte read.
  The kernel is free to hand out again the number of a descriptor that was closed, the one
  of the readiness descriptor included, so no number is excluded here.
\<close>

datatype fork_in = ForkZero int bool int | ForkNonzero int "8 word"

datatype daemonize_in = PipeFails | Piped int int fork_in

record environment =
  display_connects :: bool
  registry_roundtrip :: dispatch_in
  lock_roundtrip :: dispatch_in
  lock_wait :: "dispatch_in list"
  ready_write :: int
  daemonize_fares :: daemonize_in
  loop_turns :: "(bool \<times> loop_event list) list"
  final_roundtrip :: dispatch_in

definition initial_state :: "swaylock_args \<Rightarrow> swaylock_image list \<Rightarrow> swaylock_state" where
  "initial_state a imgs =
     \<lparr>run_display = False, locked = False, auth_state = AUTH_STATE_IDLE, failed_attempts = 0,
      password = [], args = a, images = imgs, surfaces = [], compositor = False,
      subcompositor = False, shm = False, ext_session_lock_manager_v1 = False,
      ext_session_lock_v1 = False, next_sid = 0\<rparr>"

text \<open>
  \<open>daemonize\<close>, call by call. After \<open>fork\<close> there are two processes, and each runs one
  branch: the child detaches, reports through the pipe and returns to \<open>main\<close>, where it goes
  on as the locker; the parent waits for the child's byte and ends, with status 0 when the
  byte says success. The value that \<open>fork\<close> returns selects the branch, so a statement
  about every environment is a statement about both processes.
\<close>

definition STDOUT_FILENO :: int where
  "STDOUT_FILENO = 1"

definition STDERR_FILENO :: int where
  "STDERR_FILENO = 2"

definition daemonize :: "daemonize_in \<Rightarrow> swaylock_state \<Rightarrow> swaylock_state eff" where
  "daemonize d state =
     (case d of
        PipeFails \<Rightarrow> ([Pipe None, Log LOG_ERROR ''Failed to pipe''], Exits 1)
      | Piped fds0 fds1 f \<Rightarrow>
          seq ([Pipe (Some (fds0, fds1)), Fork], Returns state) (\<lambda>state.
            (case f of
               ForkZero devnull chdir_ok written \<Rightarrow>
                 seq ([Setsid, CloseFd fds0, OpenFile ''/dev/null'' devnull,
                       Dup2 STDOUT_FILENO devnull, Dup2 STDERR_FILENO devnull,
                       CloseFd devnull, Chdir ''/''], Returns state) (\<lambda>state.
                   if \<not> chdir_ok then ([WriteFd fds1 [CHR 0x00]], Exits 1)
                   else if written \<noteq> 1 then ([WriteFd fds1 [CHR 0x01]], Exits 1)
                   else ([WriteFd fds1 [CHR 0x01], CloseFd fds1], Returns state))
             | ForkNonzero nread success \<Rightarrow>
                 seq ([CloseFd fds1, ReadFd fds0], Returns state) (\<lambda>state.
                   if nread \<noteq> 1 \<or> success = 0
                   then ([Log LOG_ERROR ''Failed to daemonize''], Exits 1)
                   else ([CloseFd fds0], Exits 0)))))"

definition wl_display_roundtrip :: "dispatch_in \<Rightarrow> swaylock_state \<Rightarrow> (bool \<times> swaylock_state) eff" where
  "wl_display_roundtrip d state =
     (case d of
        Failed \<Rightarrow> ([Roundtrip], Returns (False, state))
      | Events es \<Rightarrow>
          seq ([Roundtrip], Returns state)
            (\<lambda>state. seq (dispatch_events es state) (\<lambda>state. ret (True, state))))"

definition create_surfaces :: "swaylock_state \<Rightarrow> swaylock_state eff" where
  "create_surfaces state =
     (let rs = map (create_surface state) (surfaces state)
      in (concat (map fst rs), Returns (state\<lparr>surfaces := map snd rs\<rparr>)))"

definition main_connect :: "environment \<Rightarrow> swaylock_state \<Rightarrow> swaylock_state eff" where
  "main_connect env state0 =
     (if \<not> display_connects env
      then ([DisplayConnect, Log LOG_ERROR (''Unable to connect to the compositor. If your compositor is running, ''
                @ ''check or set the WAYLAND_DISPLAY environment variable.'')],
            Exits EXIT_FAILURE)
      else
        seq ([DisplayConnect, GetRegistry], Returns state0) (\<lambda>state.
        seq (wl_display_roundtrip (registry_roundtrip env) state) (\<lambda>(ok, state).
          if \<not> ok then ([Log LOG_ERROR ''wl_display_roundtrip() failed''], Exits EXIT_FAILURE)
          else if \<not> compositor state then ([Log LOG_ERROR ''Missing wl_compositor''], Exits 1)
          else if \<not> subcompositor state then ([Log LOG_ERROR ''Missing wl_subcompositor''], Exits 1)
          else if \<not> shm state then ([Log LOG_ERROR ''Missing wl_shm''], Exits 1)
          else if \<not> ext_session_lock_manager_v1 state
          then ([Log LOG_ERROR ''Missing ext-session-lock-v1''], Exits 1)
          else
            seq ([LockManagerLock], Returns (state\<lparr>ext_session_lock_v1 := True\<rparr>)) (\<lambda>state.
            seq (wl_display_roundtrip (lock_roundtrip env) state) (\<lambda>(ok, state).
              if \<not> ok then ([], Exits 1) else ret state)))))"

definition main_startup :: "environment \<Rightarrow> swaylock_state \<Rightarrow> swaylock_state eff" where
  "main_startup env state0 = seq (main_connect env state0) create_surfaces"

fun wait_locked :: "dispatch_in list \<Rightarrow> swaylock_state \<Rightarrow> swaylock_state eff" where
  "wait_locked [] state = (if locked state then ret state else ([], Blocks))"
| "wait_locked (d # ds) state =
     (if locked state then ret state
      else
        (case d of
           Failed \<Rightarrow> ([Dispatch, Log LOG_ERROR ''wl_display_dispatch() failed''], Exits 2)
         | Events es \<Rightarrow>
             seq (seq ([Dispatch], Returns state) (dispatch_events es)) (wait_locked ds)))"

definition notify_ready :: "int \<Rightarrow> swaylock_state \<Rightarrow> swaylock_state eff" where
  "notify_ready written state =
     (if 0 \<le> ready_fd (args state) then
        if written \<noteq> 1
        then ([WriteFd (ready_fd (args state)) [CHR 0x0A],
               Log LOG_ERROR ''Failed to send readiness notification''], Exits 2)
        else ([WriteFd (ready_fd (args state)) [CHR 0x0A], CloseFd (ready_fd (args state))],
              Returns (state\<lparr>args := (args state)\<lparr>ready_fd := - 1\<rparr>\<rparr>))
      else ret state)"

fun event_loop :: "(bool \<times> loop_event list) list \<Rightarrow> swaylock_state \<Rightarrow> swaylock_state eff" where
  "event_loop [] state = (if run_display state then ([], Blocks) else ret state)"
| "event_loop ((flushed, ready) # turns) state =
     (if run_display state then
        if \<not> flushed then ([Flush], Returns state)
        else seq (seq ([Flush], Returns state) (loop_poll ready)) (event_loop turns)
      else ret state)"

definition main_shutdown :: "dispatch_in \<Rightarrow> swaylock_state \<Rightarrow> swaylock_state eff" where
  "main_shutdown d state =
     seq ([UnlockAndDestroy], Returns (state\<lparr>ext_session_lock_v1 := False\<rparr>)) (\<lambda>state.
     seq (wl_display_roundtrip d state) (\<lambda>(ok, state). ([], Exits 0)))"

definition main_until_locked ::
  "swaylock_args \<Rightarrow> swaylock_image list \<Rightarrow> environment \<Rightarrow> swaylock_state eff"
where
  "main_until_locked a imgs env =
     seq (main_startup env (initial_state a imgs)) (wait_locked (lock_wait env))"

definition main_before_loop :: "environment \<Rightarrow> swaylock_state \<Rightarrow> swaylock_state eff" where
  "main_before_loop env state0 =
     seq (notify_ready (ready_write env) state0) (\<lambda>state.
     seq (if args_daemonize (args state) then daemonize (daemonize_fares env) state else ret state)
       (\<lambda>state. ([LoopAddFds], Returns (state\<lparr>run_display := True\<rparr>))))"

definition main_locked :: "environment \<Rightarrow> swaylock_state \<Rightarrow> swaylock_state eff" where
  "main_locked env state0 =
     seq (main_before_loop env state0) (\<lambda>state.
     seq (event_loop (loop_turns env) state) (main_shutdown (final_roundtrip env)))"

definition main :: "swaylock_args \<Rightarrow> swaylock_image list \<Rightarrow> environment \<Rightarrow> swaylock_state eff" where
  "main a imgs env = seq (main_until_locked a imgs env) (main_locked env)"

section \<open>The empty-password option and the submit operation\<close>

text \<open>
  Of the empty-secret policy, \<open>main.c\<close> holds the option: case \<open>'e'\<close> of \<open>parse_options\<close>
  sets \<open>args.ignore_empty\<close> when a state is given (the first pass over the command line
  passes \<open>NULL\<close>).
\<close>

definition parse_options_e :: "swaylock_state option \<Rightarrow> swaylock_state option" where
  "parse_options_e state =
     (case state of
        Some st \<Rightarrow> Some (st\<lparr>args := (args st)\<lparr>ignore_empty := True\<rparr>\<rparr>)
      | None \<Rightarrow> None)"

text \<open>
  Modelled from the spec: the submit operation of the authentication channel, whose code
  (\<open>password.c\<close>, \<open>comm.c\<close>) is not among the sources. By the specification (4.2), a submit
  of a zero-length secret with \<open>ignore_empty\<close> set short-circuits locally and reports
  failure without a round trip; a submit while a verdict is awaited is rejected and nothing
  is sent; any other submit writes one request that carries the secret and moves the
  channel from \<open>Idle\<close> to \<open>AwaitingVerdict\<close>. The framing of a request is left open by the
  specification, so the pipe is the list of the requests written.
\<close>

datatype channel_state = Idle | AwaitingVerdict | ChannelBroken

record auth_channel =
  channel :: channel_state
  requests :: "string list"

datatype submit_result = ReportsFailure | Rejected | Sent

definition submit :: "string \<Rightarrow> bool \<Rightarrow> auth_channel \<Rightarrow> submit_result \<times> auth_channel" where
  "submit secret ignore ch =
     (if ignore \<and> length secret = 0 then (ReportsFailure, ch)
      else if channel ch \<noteq> Idle then (Rejected, ch)
      else (Sent, ch\<lparr>channel := AwaitingVerdict, requests := requests ch @ [secret]\<rparr>))"

section \<open>Reading traces and event sequences\<close>

text \<open>
  The properties proved below speak about what the process did: the serials it acknowledged
  for a surface,
  in order, next to the serials the configure events for that surface carried; the lock
  surfaces it requested; what it wrote to the readiness descriptor.
\<close>

fun ack_serials :: "nat \<Rightarrow> action list \<Rightarrow> 32 word list" where
  "ack_serials i [] = []"
| "ack_serials i (AckConfigure j serial # as) =
     (if j = i then serial # ack_serials i as else ack_serials i as)"
| "ack_serials i (a # as) = ack_serials i as"


definition is_global_remove :: "wl_event \<Rightarrow> bool" where
  "is_global_remove e = (case e of GlobalRemove name \<Rightarrow> True | _ \<Rightarrow> False)"

definition lookup_surface :: "nat \<Rightarrow> swaylock_state \<Rightarrow> swaylock_surface option" where
  "lookup_surface i state = find (\<lambda>x. sid x = i) (surfaces state)"

definition has_lock_surface :: "nat \<Rightarrow> swaylock_state \<Rightarrow> bool" where
  "has_lock_surface i state =
     (case lookup_surface i state of Some x \<Rightarrow> ext_session_lock_surface_v1 x | None \<Rightarrow> False)"

text \<open>
  The surfaces on the list are distinct allocations, and \<open>next_sid\<close> is beyond all of
  them.
\<close>

definition wf_surfaces :: "swaylock_state \<Rightarrow> bool" where
  "wf_surfaces state =
     (distinct (map sid (surfaces state)) \<and> list_all (\<lambda>x. sid x < next_sid state) (surfaces state))"

text \<open>The defaults that \<open>main\<close> and \<open>set_default_colors\<close> give the arguments.\<close>

definition default_args :: swaylock_args where
  "default_args =
     \<lparr>mode = BACKGROUND_MODE_FILL, background = 0xA3A3A3FF, ignore_empty = False,
      show_failed_attempts = False, args_daemonize = False, ready_fd = - 1\<rparr>"

text \<open>
  What a listener may do to the surface it is given: the allocation and the output stay the
  same, and a lock surface or the \<open>created\<close> flag, once there, stays.
\<close>

definition keeps_identity :: "swaylock_surface \<Rightarrow> swaylock_surface \<Rightarrow> bool" where
  "keeps_identity x x' =
     (sid x' = sid x \<and> output_global_name x' = output_global_name x
      \<and> (ext_session_lock_surface_v1 x \<longrightarrow> ext_session_lock_surface_v1 x')
      \<and> (created x \<longrightarrow> created x'))"

text \<open>
  A computation started after the trace \<open>h\<close> \<open>follows T Q\<close> when the trace it has
  extended satisfies \<open>T\<close> and, if it returns, the trace and the result satisfy \<open>Q\<close>.
\<close>

definition follows ::
  "(action list \<Rightarrow> bool) \<Rightarrow> (action list \<Rightarrow> 'a \<Rightarrow> bool) \<Rightarrow> action list \<Rightarrow> 'a eff \<Rightarrow> bool"
where
  "follows T Q h m =
     (T (h @ fst m) \<and> (case snd m of Returns x \<Rightarrow> Q (h @ fst m) x | _ \<Rightarrow> True))"

text \<open>
  The actions that \<open>main\<close> and the callbacks perform themselves, apart from the milestones
  treated one by one.
\<close>

definition plain_action :: "action \<Rightarrow> bool" where
  "plain_action a =
     (case a of
        Log l m \<Rightarrow> True
      | Render x \<Rightarrow> True
      | ScheduleAuthIdle \<Rightarrow> True
      | DisplayConnect \<Rightarrow> True
      | GetRegistry \<Rightarrow> True
      | Roundtrip \<Rightarrow> True
      | Dispatch \<Rightarrow> True
      | Flush \<Rightarrow> True
      | LockManagerLock \<Rightarrow> True
      | LoopAddFds \<Rightarrow> True
      | _ \<Rightarrow> False)"

text \<open>
  \<open>I\<close> is an invariant of dispatch, with the trace property \<open>T\<close>, when it implies \<open>T\<close>,
  is kept by every event together with the actions of its listener, and is kept by the
  plain actions. It is an invariant of the event loop when the callbacks' own updates of the
  state keep it as well.
\<close>

definition dispatch_invariant ::
  "(action list \<Rightarrow> bool) \<Rightarrow> (action list \<Rightarrow> swaylock_state \<Rightarrow> bool) \<Rightarrow> bool"
where
  "dispatch_invariant T I =
     ((\<forall>h s. I h s \<longrightarrow> T h)
      \<and> (\<forall>h s e. I h s \<longrightarrow> follows T I h (dispatch_event e s))
      \<and> (\<forall>h s a. I h s \<and> plain_action a \<longrightarrow> I (h @ [a]) s))"

definition loop_invariant ::
  "(action list \<Rightarrow> bool) \<Rightarrow> (action list \<Rightarrow> swaylock_state \<Rightarrow> bool) \<Rightarrow> bool"
where
  "loop_invariant T I =
     (dispatch_invariant T I
      \<and> (\<forall>h s. I h s \<longrightarrow> I h (s\<lparr>run_display := False\<rparr>))
      \<and> (\<forall>h s. I h s \<longrightarrow>
             I h (s\<lparr>auth_state := AUTH_STATE_INVALID,
                    failed_attempts := failed_attempts s + 1,
                    surfaces := map (\<lambda>x. x\<lparr>dirty := True\<rparr>) (surfaces s)\<rparr>)))"

text \<open>
  A state to try the theorems on: the lock has been requested, one output (global name 7)
  has been announced and its surface created. It is the state that \<open>main\<close> reaches after
  its start-up with one output.
\<close>

definition demo_surface :: swaylock_surface where
  "demo_surface =
     \<lparr>sid = 0, output_global_name = 7, output_name = None,
      surface_image = None, wl_surface = True, child = True, subsurface = True,
      ext_session_lock_surface_v1 = True, created = True, dirty = False,
      width = 0, height = 0, scale = 0, subpixel = 0\<rparr>"

definition demo_state :: swaylock_state where
  "demo_state =
     \<lparr>run_display = False, locked = False, auth_state = AUTH_STATE_IDLE, failed_attempts = 0,
      password = [], args = default_args, images = [], surfaces = [demo_surface],
      compositor = True, subcompositor = True, shm = True, ext_session_lock_manager_v1 = True,
      ext_session_lock_v1 = True, next_sid = 1\<rparr>"





definition milestone :: "action \<Rightarrow> bool" where
  "milestone a =
     (case a of
        WriteFd fd bytes \<Rightarrow> True
      | CloseFd fd \<Rightarrow> True
      | Pipe fds \<Rightarrow> True
      | Fork \<Rightarrow> True
      | Setsid \<Rightarrow> True
      | OpenFile path fd \<Rightarrow> True
      | Dup2 fd fd' \<Rightarrow> True
      | Chdir path \<Rightarrow> True
      | ReadFd fd \<Rightarrow> True
      | UnlockAndDestroy \<Rightarrow> True
      | _ \<Rightarrow> False)"


definition readiness :: "int \<Rightarrow> int \<Rightarrow> action list" where
  "readiness fd written =
     (if 0 \<le> fd then
        if written = 1 then [WriteFd fd [CHR 0x0A], CloseFd fd]
        else [WriteFd fd [CHR 0x0A], Log LOG_ERROR ''Failed to send readiness notification'']
      else [])"

text \<open>
  The writes and closes of a stretch of the trace go to descriptors handed out within
  that stretch: \<open>fds\<close> are the descriptors handed out so far and not closed since, one entry
  for each time a number was handed out.
\<close>

fun writes_own :: "int list \<Rightarrow> action list \<Rightarrow> bool" where
  "writes_own fds [] = True"
| "writes_own fds (Pipe p # as) =
     writes_own ((case p of None \<Rightarrow> [] | Some (fds0, fds1) \<Rightarrow> [fds0, fds1]) @ fds) as"
| "writes_own fds (OpenFile path fd # as) = writes_own (fd # fds) as"
| "writes_own fds (WriteFd fd bytes # as) = (fd \<in> set fds \<and> writes_own fds as)"
| "writes_own fds (CloseFd fd # as) = (fd \<in> set fds \<and> writes_own (remove1 fd fds) as)"
| "writes_own fds (a # as) = writes_own fds as"


text \<open>
  A run to try the theorems on: the readiness descriptor is 3 and \<open>daemonize\<close> is asked
  for; its pipe gets the descriptors 3 and 4 and \<open>/dev/null\<close> gets 3, the number 3 being
  free each time; the server announces the four globals \<open>main\<close> needs and one output, confirms the
  lock, and the checker answers one failure and then success.
\<close>

definition demo_args :: swaylock_args where
  "demo_args = default_args\<lparr>args_daemonize := True, ready_fd := 3\<rparr>"

definition demo_env :: environment where
  "demo_env =
     \<lparr>display_connects = True,
      registry_roundtrip =
        Events [Global 1 ''wl_compositor'' 5, Global 2 ''wl_subcompositor'' 1,
                Global 3 ''wl_shm'' 1, Global 7 ''wl_output'' 4,
                Global 9 ''ext_session_lock_manager_v1'' 1],
      lock_roundtrip = Events [OutputDone 0],
      lock_wait = [Events [LockLocked]],
      ready_write = 1,
      daemonize_fares = Piped 3 4 (ForkZero 3 True 1),
      loop_turns = [(True, [CommIn POLLIN (Some False)]), (True, [CommIn POLLIN (Some True)])],
      final_roundtrip = Events []\<rparr>"

text \<open>The surfaces for which a lock surface was requested, in the order of the requests.\<close>

fun creates :: "action list \<Rightarrow> nat list" where
  "creates [] = []"
| "creates (GetLockSurface i # as) = i # creates as"
| "creates (a # as) = creates as"

text \<open>
  The invariant behind "at most once": the requests so far are for distinct surfaces, and
  a surface for which the request was made is either off the list for good or has its
  \<open>created\<close> flag set.
\<close>

definition created_once :: "action list \<Rightarrow> swaylock_state \<Rightarrow> bool" where
  "created_once h s =
     (distinct (creates h) \<and> wf_surfaces s
      \<and> list_all (\<lambda>i. i < next_sid s \<and> list_all (\<lambda>x. sid x = i \<longrightarrow> created x) (surfaces s))
           (creates h))"

text \<open>Before \<open>main\<close> creates the surfaces: none was requested and none is marked.\<close>

definition none_created :: "action list \<Rightarrow> swaylock_state \<Rightarrow> bool" where
  "none_created h s =
     (creates h = [] \<and> wf_surfaces s \<and> \<not> run_display s
      \<and> list_all (\<lambda>x. \<not> created x) (surfaces s))"

section \<open>Properties of \<open>parse_color\<close>\<close>

lemma strtoul_digits_hex:
  "\<forall>c \<in> set s. isxdigit c \<Longrightarrow> strtoul_digits acc s = foldl (\<lambda>a c. 16 * a + xdigit_val c) acc s"
  by (induction s arbitrary: acc) auto

lemma xdigit_val_less: "isxdigit c \<Longrightarrow> xdigit_val c < 16"
  by (auto simp: isxdigit_def xdigit_val_def Let_def)

lemma foldl_hex_bound:
  "\<forall>c \<in> set s. isxdigit c \<Longrightarrow> foldl (\<lambda>a c. 16 * a + xdigit_val c) acc s < (acc + 1) * 16 ^ length s"
proof (induction s arbitrary: acc)
  case Nil
  then show ?case by simp
next
  case (Cons c s)
  have "xdigit_val c < 16" using Cons.prems by (simp add: xdigit_val_less)
  then have le: "(16 * acc + xdigit_val c + 1) * 16 ^ length s \<le> (16 * acc + 16) * 16 ^ length s"
    by (intro mult_right_mono) auto
  have "foldl (\<lambda>a c. 16 * a + xdigit_val c) acc (c # s)
        = foldl (\<lambda>a c. 16 * a + xdigit_val c) (16 * acc + xdigit_val c) s"
    by simp
  also have "\<dots> < (16 * acc + xdigit_val c + 1) * 16 ^ length s"
    using Cons.IH [of "16 * acc + xdigit_val c"] Cons.prems by simp
  also note le
  also have "(16 * acc + 16) * 16 ^ length s = (acc + 1) * 16 ^ length (c # s)"
    by (simp add: algebra_simps)
  finally show ?case .
qed

lemma hex_value_bound: "\<forall>c \<in> set s. isxdigit c \<Longrightarrow> hex_value s < 16 ^ length s"
  using foldl_hex_bound [of s 0] by (simp add: hex_value_def)

lemma xdigit_not_space: "isxdigit c \<Longrightarrow> \<not> isspace c"
  by (auto simp: isxdigit_def isspace_def Let_def)

lemma xdigit_not_sign: "isxdigit c \<Longrightarrow> c \<noteq> CHR ''-'' \<and> c \<noteq> CHR ''+'' \<and> c \<noteq> CHR ''x'' \<and> c \<noteq> CHR ''X'' \<and> c \<noteq> CHR ''#''"
  by (auto simp: isxdigit_def Let_def)

lemma strtoul_prefix_hex: "\<forall>c \<in> set s. isxdigit c \<Longrightarrow> strtoul_prefix s = s"
  by (auto simp: strtoul_prefix_def xdigit_not_sign split: list.splits)

lemma strtoul_sign_hex: "\<forall>c \<in> set s. isxdigit c \<Longrightarrow> strtoul_sign s = (False, s)"
  by (auto simp: strtoul_sign_def xdigit_not_sign split: list.splits)

lemma dropWhile_space_hex: "\<forall>c \<in> set s. isxdigit c \<Longrightarrow> dropWhile isspace s = s"
  by (cases s) (auto simp: xdigit_not_space)

lemma strtoul16_hex:
  assumes "\<forall>c \<in> set s. isxdigit c" and "length s \<le> 16"
  shows "strtoul16 s = word_of_nat (hex_value s)"
proof -
  have "hex_value s < 16 ^ length s" using assms(1) by (rule hex_value_bound)
  also have "(16::nat) ^ length s \<le> 16 ^ 16" using assms(2) by (intro power_increasing) auto
  finally have "hex_value s < 2 ^ 64" by simp
  then show ?thesis
    using assms(1)
    by (simp add: strtoul16_def dropWhile_space_hex strtoul_sign_hex strtoul_prefix_hex
        strtoul_digits_hex hex_value_def)
qed

lemma parse_color_strip:
  "parse_color s =
     (let r = strip_hash s in
      if length r \<noteq> 6 \<and> length r \<noteq> 8 then 0xFFFFFFFF
      else if length r = 6 then push_bit 8 (ucast (strtoul16 r)) OR 0xFF
      else ucast (strtoul16 r))"
  by (cases s) (auto simp: parse_color_def strip_hash_def Let_def)

lemma unat_rgb:
  assumes "v < 2 ^ 24"
  shows "unat (push_bit 8 (word_of_nat v :: 32 word) OR 0xFF) = v * 256 + 255"
proof -
  have m: "(0xFF :: 32 word) = mask 8"
    by (simp add: mask_eq_exp_minus_1)
  have "push_bit 8 (word_of_nat v :: 32 word) AND mask 8 = 0"
    by (simp add: take_bit_eq_mask [symmetric] take_bit_push_bit)
  then have "push_bit 8 (word_of_nat v :: 32 word) OR 0xFF = push_bit 8 (word_of_nat v) + 0xFF"
    unfolding m by (rule disjunctive_add_eq_or [symmetric])
  also have "\<dots> = word_of_nat (v * 256 + 255)"
    by (simp add: push_bit_eq_mult)
  finally have "unat (push_bit 8 (word_of_nat v :: 32 word) OR 0xFF) = (v * 256 + 255) mod 2 ^ 32"
    by (simp only: unat_of_nat) simp
  moreover have "v * 256 + 255 < 2 ^ 32" using assms by simp
  ultimately show ?thesis by simp
qed

lemma ucast_strtoul_word:
  assumes "v < 2 ^ 32"
  shows "(ucast (word_of_nat v :: 64 word) :: 32 word) = word_of_nat v"
proof -
  have "take_bit 64 v = v" using assms by (simp add: take_bit_nat_eq_self_iff)
  then show ?thesis by (simp add: unsigned_of_nat)
qed

lemma ucast_strtoul_value:
  assumes "v < 2 ^ 32"
  shows "unat (ucast (word_of_nat v :: 64 word) :: 32 word) = v"
  using assms by (simp add: ucast_strtoul_word unat_of_nat)


section \<open>Sequencing and dispatch\<close>

lemma seq_Returns [simp]: "seq (as, Returns x) f = (as @ fst (f x), snd (f x))"
  by (simp add: seq_def split: prod.splits)

lemma seq_Exits [simp]: "seq (as, Exits n) f = (as, Exits n)"
  by (simp add: seq_def)

lemma seq_Blocks [simp]: "seq (as, Blocks) f = (as, Blocks)"
  by (simp add: seq_def)

lemma seq_ret [simp]: "seq (ret x) f = f x"
  by (simp add: ret_def)

lemma fst_seq:
  "fst (seq m f) = (case snd m of Returns x \<Rightarrow> fst m @ fst (f x) | _ \<Rightarrow> fst m)"
  by (cases m; cases "snd m") auto

lemma snd_seq:
  "snd (seq m f) = (case snd m of Returns x \<Rightarrow> snd (f x) | Exits n \<Rightarrow> Exits n | Blocks \<Rightarrow> Blocks)"
  by (cases m; cases "snd m") auto

lemma with_surface_cases:
  "with_surface i alive listener state = (as, r) \<Longrightarrow>
     (as = [] \<and> r = Returns state) \<or>
     (\<exists>x x'. find (\<lambda>x. sid x = i) (surfaces state) = Some x \<and> alive x
        \<and> listener x = (as, x') \<and> r = Returns (put_surface x' state))"
  by (auto simp: with_surface_def ret_def split: option.splits if_splits prod.splits)

lemma dispatch_event_outcome:
  "snd (dispatch_event e state) = Exits n \<Longrightarrow> e = LockFinished \<and> n = 2 \<and> ext_session_lock_v1 state"
  by (cases e)
     (auto simp: handle_global_def handle_global_remove_def with_surface_def ret_def Let_def
        ext_session_lock_v1_handle_locked_def ext_session_lock_v1_handle_finished_def
        split: if_splits option.splits prod.splits)

lemma dispatch_event_not_Blocks: "snd (dispatch_event e state) \<noteq> Blocks"
  by (cases e)
     (auto simp: handle_global_def handle_global_remove_def with_surface_def ret_def Let_def
        ext_session_lock_v1_handle_locked_def ext_session_lock_v1_handle_finished_def
        split: if_splits option.splits prod.splits)


lemma dispatch_event_frame:
  "dispatch_event e state = (as, Returns state') \<Longrightarrow>
     run_display state' = run_display state \<and> ext_session_lock_v1 state' = ext_session_lock_v1 state
     \<and> args state' = args state \<and> failed_attempts state' = failed_attempts state
     \<and> password state' = password state \<and> auth_state state' = auth_state state
     \<and> images state' = images state"
  by (cases e)
     (auto simp: handle_global_def handle_global_remove_def with_surface_def ret_def Let_def
        put_surface_def destroy_surface_def
        ext_session_lock_v1_handle_locked_def ext_session_lock_v1_handle_finished_def
        split: if_splits option.splits prod.splits)

lemma dispatch_event_locked:
  "dispatch_event e state = (as, Returns state') \<Longrightarrow>
     locked state' = (locked state \<or> (e = LockLocked \<and> ext_session_lock_v1 state))"
  by (cases e)
     (auto simp: handle_global_def handle_global_remove_def with_surface_def ret_def Let_def
        put_surface_def destroy_surface_def
        ext_session_lock_v1_handle_locked_def ext_session_lock_v1_handle_finished_def
        split: if_splits option.splits prod.splits)

lemma dispatch_events_append:
  "dispatch_events (es @ es') state = seq (dispatch_events es state) (dispatch_events es')"
proof (induction es arbitrary: state)
  case Nil
  show ?case by simp
next
  case (Cons e es)
  obtain as r where d: "dispatch_event e state = (as, r)" by (cases "dispatch_event e state")
  show ?case
  proof (cases r)
    case (Returns s1)
    obtain bs r2 where d2: "dispatch_events es s1 = (bs, r2)" by (cases "dispatch_events es s1")
    show ?thesis using d Returns d2 Cons.IH [of s1] by (cases r2) auto
  qed (use d in auto)
qed

lemma dispatch_events_no_finished:
  "LockFinished \<notin> set es \<Longrightarrow> \<exists>state'. snd (dispatch_events es state) = Returns state'"
proof (induction es arbitrary: state)
  case Nil
  show ?case by (simp add: ret_def)
next
  case (Cons e es)
  obtain as r where d: "dispatch_event e state = (as, r)" by (cases "dispatch_event e state")
  show ?case
  proof (cases r)
    case (Returns s1)
    then show ?thesis using d Cons.IH [of s1] Cons.prems by simp
  next
    case (Exits n)
    then show ?thesis using d dispatch_event_outcome [of e state n] Cons.prems by simp
  next
    case Blocks
    then show ?thesis using d dispatch_event_not_Blocks [of e state] by simp
  qed
qed

lemma dispatch_events_frame:
  "dispatch_events es state = (as, Returns state') \<Longrightarrow>
     run_display state' = run_display state \<and> ext_session_lock_v1 state' = ext_session_lock_v1 state
     \<and> args state' = args state \<and> failed_attempts state' = failed_attempts state
     \<and> password state' = password state \<and> auth_state state' = auth_state state
     \<and> images state' = images state"
proof (induction es arbitrary: state as)
  case Nil
  then show ?case by (simp add: ret_def)
next
  case (Cons e es)
  obtain bs r where d: "dispatch_event e state = (bs, r)" by (cases "dispatch_event e state")
  show ?case
  proof (cases r)
    case (Returns s1)
    obtain cs where "dispatch_events es s1 = (cs, Returns state')"
      using Cons.prems d Returns by (cases "dispatch_events es s1") auto
    then show ?thesis using Cons.IH [of s1 cs] dispatch_event_frame [of e state bs s1] d Returns
      by simp
  qed (use Cons.prems d in auto)
qed

lemma dispatch_events_outcome:
  "snd (dispatch_events es state) = Exits n \<Longrightarrow> n = 2"
proof (induction es arbitrary: state)
  case Nil
  then show ?case by (simp add: ret_def)
next
  case (Cons e es)
  obtain bs r where d: "dispatch_event e state = (bs, r)" by (cases "dispatch_event e state")
  show ?case
  proof (cases r)
    case (Returns s1)
    then show ?thesis using Cons d by simp
  next
    case (Exits m)
    then show ?thesis using Cons.prems d dispatch_event_outcome [of e state m] by simp
  next
    case Blocks
    then show ?thesis using Cons.prems d by simp
  qed
qed

lemma dispatch_events_not_Blocks: "snd (dispatch_events es state) \<noteq> Blocks"
proof (induction es arbitrary: state)
  case Nil
  then show ?case by (simp add: ret_def)
next
  case (Cons e es)
  obtain bs r where d: "dispatch_event e state = (bs, r)" by (cases "dispatch_event e state")
  show ?case
  proof (cases r)
    case (Returns s1)
    then show ?thesis using Cons d by simp
  next
    case (Exits m)
    then show ?thesis using d by simp
  next
    case Blocks
    then show ?thesis using d dispatch_event_not_Blocks [of e state] by simp
  qed
qed

lemma dispatch_events_finished:
  assumes "ext_session_lock_v1 state" and "LockFinished \<in> set es"
  shows "snd (dispatch_events es state) = Exits 2"
  using assms
proof (induction es arbitrary: state)
  case Nil
  then show ?case by simp
next
  case (Cons e es)
  obtain bs r where d: "dispatch_event e state = (bs, r)" by (cases "dispatch_event e state")
  show ?case
  proof (cases r)
    case (Returns s1)
    have "e \<noteq> LockFinished"
      using d Returns Cons.prems(1) by (auto simp: ext_session_lock_v1_handle_finished_def)
    moreover have "ext_session_lock_v1 s1"
      using dispatch_event_frame [of e state bs s1] d Returns Cons.prems(1) by simp
    ultimately show ?thesis using Cons d Returns by simp
  next
    case (Exits m)
    then show ?thesis using d dispatch_event_outcome [of e state m] by simp
  next
    case Blocks
    then show ?thesis using d dispatch_event_not_Blocks [of e state] by simp
  qed
qed

lemma dispatch_events_stop_at_finished:
  assumes "ext_session_lock_v1 state" and "LockFinished \<notin> set es"
  shows "dispatch_events (es @ LockFinished # es') state
         = (fst (dispatch_events es state)
            @ [Log LOG_ERROR ''Failed to lock session -- is another lockscreen running?''], Exits 2)"
proof -
  obtain as r where d: "dispatch_events es state = (as, r)" by (cases "dispatch_events es state")
  obtain s1 where r: "r = Returns s1" using dispatch_events_no_finished [OF assms(2), of state] d by auto
  have "ext_session_lock_v1 s1" using dispatch_events_frame [of es state as s1] d r assms(1) by simp
  then show ?thesis
    using d r by (simp add: dispatch_events_append ext_session_lock_v1_handle_finished_def)
qed

section \<open>Acknowledgements\<close>

lemma configure_ack:
  "ext_session_lock_surface_v1_handle_configure x serial w h
     = ([AckConfigure (sid x) serial, Render (x\<lparr>width := w, height := h, dirty := True\<rparr>)],
        x\<lparr>width := w, height := h, dirty := True\<rparr>)"
  by (simp add: ext_session_lock_surface_v1_handle_configure_def render_def Let_def)

lemma find_sid: "find (\<lambda>x. sid x = i) xs = Some x \<Longrightarrow> sid x = i"
  by (induction xs) (auto split: if_splits)

lemma with_surface_None:
  "lookup_surface i state = None \<Longrightarrow> with_surface i alive listener state = ([], Returns state)"
  by (simp add: with_surface_def lookup_surface_def ret_def)

lemma with_surface_Some:
  "lookup_surface i state = Some x \<Longrightarrow>
   with_surface i alive listener state =
     (if alive x then (fst (listener x), Returns (put_surface (snd (listener x)) state))
      else ([], Returns state))"
  by (simp add: with_surface_def lookup_surface_def ret_def split: prod.splits)

lemma dispatch_configure:
  "dispatch_event (LockSurfaceConfigure j serial w h) state =
     (case lookup_surface j state of
        None \<Rightarrow> ([], Returns state)
      | Some x \<Rightarrow>
          if ext_session_lock_surface_v1 x
          then ([AckConfigure j serial, Render (x\<lparr>width := w, height := h, dirty := True\<rparr>)],
                Returns (put_surface (x\<lparr>width := w, height := h, dirty := True\<rparr>) state))
          else ([], Returns state))"
proof (cases "lookup_surface j state")
  case None
  then show ?thesis by (simp add: with_surface_None)
next
  case (Some x)
  have sx: "sid x = j" using Some unfolding lookup_surface_def by (rule find_sid)
  show ?thesis
    unfolding dispatch_event.simps with_surface_Some [OF Some] configure_ack Some sx
    by simp
qed

lemma ack_serials_append: "ack_serials i (as @ bs) = ack_serials i as @ ack_serials i bs"
  by (induction i as rule: ack_serials.induct) simp_all

lemma dispatch_event_acks:
  "ack_serials i (fst (dispatch_event e state)) =
     (case e of
        LockSurfaceConfigure j serial w h \<Rightarrow>
          if j = i \<and> has_lock_surface j state then [serial] else []
      | _ \<Rightarrow> [])"
proof (cases e)
  case (LockSurfaceConfigure j serial w h)
  show ?thesis
    unfolding LockSurfaceConfigure dispatch_configure
    by (simp add: has_lock_surface_def split: option.splits)
next
  case (Global name interface version)
  then show ?thesis by (simp add: handle_global_def ret_def Let_def)
next
  case (GlobalRemove name)
  then show ?thesis
    by (simp add: handle_global_remove_def destroy_surface_def ret_def split: option.splits)
next
  case (OutputGeometry j sp)
  then show ?thesis
    by (cases "lookup_surface j state")
       (simp_all add: with_surface_None with_surface_Some handle_wl_output_geometry_def
          render_def Let_def)
next
  case (OutputMode j)
  then show ?thesis
    by (cases "lookup_surface j state")
       (simp_all add: with_surface_None with_surface_Some handle_wl_output_mode_def)
next
  case (OutputDone j)
  then show ?thesis
    by (cases "lookup_surface j state")
       (simp_all add: with_surface_None with_surface_Some handle_wl_output_done_def
          create_surface_def Let_def)
next
  case (OutputScale j factor)
  then show ?thesis
    by (cases "lookup_surface j state")
       (simp_all add: with_surface_None with_surface_Some handle_wl_output_scale_def
          render_def Let_def)
next
  case (OutputName j name)
  then show ?thesis
    by (cases "lookup_surface j state")
       (simp_all add: with_surface_None with_surface_Some handle_wl_output_name_def)
next
  case (OutputDescription j)
  then show ?thesis
    by (cases "lookup_surface j state")
       (simp_all add: with_surface_None with_surface_Some handle_wl_output_description_def)
next
  case LockLocked
  then show ?thesis by (simp add: ext_session_lock_v1_handle_locked_def ret_def)
next
  case LockFinished
  then show ?thesis by (simp add: ext_session_lock_v1_handle_finished_def ret_def)
qed


lemma fst_dispatch_events_Cons:
  "fst (dispatch_events (e # es) state) =
     fst (dispatch_event e state)
     @ (case snd (dispatch_event e state) of
          Returns s1 \<Rightarrow> fst (dispatch_events es s1) | _ \<Rightarrow> [])"
  by (cases "dispatch_event e state"; cases "snd (dispatch_event e state)") auto


section \<open>What dispatch does to the list of surfaces\<close>

lemma keeps_identity_refl: "keeps_identity x x"
  by (simp add: keeps_identity_def)

lemma listeners_keep_identity:
  "keeps_identity x (snd (handle_wl_output_geometry state x sp))"
  "keeps_identity x (snd (handle_wl_output_mode state x))"
  "keeps_identity x (snd (handle_wl_output_done state x))"
  "keeps_identity x (snd (handle_wl_output_scale state x factor))"
  "keeps_identity x (snd (handle_wl_output_name state x name))"
  "keeps_identity x (snd (handle_wl_output_description state x))"
  "keeps_identity x (snd (ext_session_lock_surface_v1_handle_configure x serial w h))"
  "keeps_identity x (snd (create_surface state x))"
  by (simp_all add: keeps_identity_def handle_wl_output_geometry_def handle_wl_output_mode_def
      handle_wl_output_done_def handle_wl_output_scale_def handle_wl_output_name_def
      handle_wl_output_description_def ext_session_lock_surface_v1_handle_configure_def
      create_surface_def Let_def)

lemma with_surface_effect:
  assumes "with_surface i alive listener state = (as, Returns state')"
    and "\<And>x. keeps_identity x (snd (listener x))"
  shows "state' = state \<or>
     (\<exists>x x'. lookup_surface i state = Some x \<and> keeps_identity x x' \<and> sid x = i
        \<and> x' = snd (listener x) \<and> as = fst (listener x) \<and> alive x
        \<and> state' = state\<lparr>surfaces := map (\<lambda>y. if sid y = i then x' else y) (surfaces state)\<rparr>)"
proof (cases "lookup_surface i state")
  case None
  then show ?thesis using assms(1) by (simp add: with_surface_None)
next
  case (Some x)
  have sx: "sid x = i" using Some unfolding lookup_surface_def by (rule find_sid)
  show ?thesis
  proof (cases "alive x")
    case True
    have k: "keeps_identity x (snd (listener x))" by (rule assms(2))
    then have "sid (snd (listener x)) = i" using sx by (simp add: keeps_identity_def)
    then have "state' = state\<lparr>surfaces := map (\<lambda>y. if sid y = i then snd (listener x) else y) (surfaces state)\<rparr>"
      using assms(1) True by (simp add: with_surface_Some [OF Some] put_surface_def)
    moreover have "as = fst (listener x)"
      using assms(1) True by (simp add: with_surface_Some [OF Some])
    ultimately show ?thesis using Some k sx True by blast
  next
    case False
    then show ?thesis using assms(1) by (simp add: with_surface_Some [OF Some])
  qed
qed


lemma listeners_keep_uncreated:
  assumes "\<not> run_display state"
  shows "created (snd (handle_wl_output_geometry state x sp)) = created x"
    "created (snd (handle_wl_output_mode state x)) = created x"
    "created (snd (handle_wl_output_done state x)) = created x"
    "created (snd (handle_wl_output_scale state x factor)) = created x"
    "created (snd (handle_wl_output_name state x name)) = created x"
    "created (snd (handle_wl_output_description state x)) = created x"
    "created (snd (ext_session_lock_surface_v1_handle_configure x serial w h)) = created x"
  using assms
  by (simp_all add: handle_wl_output_geometry_def handle_wl_output_mode_def
      handle_wl_output_done_def handle_wl_output_scale_def handle_wl_output_name_def
      handle_wl_output_description_def ext_session_lock_surface_v1_handle_configure_def
      Let_def)

lemma dispatch_event_surfaces:
  assumes "dispatch_event e state = (as, Returns state')"
  shows "(surfaces state' = surfaces state \<and> next_sid state' = next_sid state)
     \<or> (\<exists>name version. e = Global name ''wl_output'' version
           \<and> surfaces state' = new_surface state name # surfaces state
           \<and> next_sid state' = Suc (next_sid state))
     \<or> (\<exists>name x. e = GlobalRemove name
           \<and> find (\<lambda>y. output_global_name y = name) (surfaces state) = Some x
           \<and> surfaces state' = remove1 x (surfaces state) \<and> next_sid state' = next_sid state)
     \<or> (\<exists>i x x'. \<not> is_global_remove e \<and> lookup_surface i state = Some x \<and> sid x = i
           \<and> keeps_identity x x' \<and> (\<not> run_display state \<longrightarrow> created x' = created x)
           \<and> surfaces state' = map (\<lambda>y. if sid y = i then x' else y) (surfaces state)
           \<and> next_sid state' = next_sid state)"
proof -
  have upd: ?thesis
    if w: "with_surface i alive listener state = (as, Returns state')"
      and k: "\<And>x. keeps_identity x (snd (listener x))"
      and e: "\<not> is_global_remove e"
      and c: "\<And>x. \<not> run_display state \<Longrightarrow> created (snd (listener x)) = created x"
    for i alive listener
  proof -
    from with_surface_effect [OF w k] consider
      (same) "state' = state"
      | (upd) x x' where "lookup_surface i state = Some x" "keeps_identity x x'" "sid x = i"
          "x' = snd (listener x)"
          "state' = state\<lparr>surfaces := map (\<lambda>y. if sid y = i then x' else y) (surfaces state)\<rparr>"
      by blast
    then show ?thesis
    proof cases
      case same
      then show ?thesis by simp
    next
      case upd
      then have "\<not> is_global_remove e \<and> lookup_surface i state = Some x \<and> sid x = i
           \<and> keeps_identity x x' \<and> (\<not> run_display state \<longrightarrow> created x' = created x)
           \<and> surfaces state' = map (\<lambda>y. if sid y = i then x' else y) (surfaces state)
           \<and> next_sid state' = next_sid state"
        using e c [of x] by simp
      then show ?thesis by blast
    qed
  qed
  show ?thesis
  proof (cases e)
    case (Global name interface version)
    then show ?thesis using assms
      by (auto simp: handle_global_def ret_def Let_def split: if_splits)
  next
    case (GlobalRemove name)
    then show ?thesis using assms
      by (auto simp: handle_global_remove_def destroy_surface_def ret_def split: option.splits)
  next
    case (OutputGeometry i sp)
    then show ?thesis using assms
      by (intro upd [of i _ "\<lambda>x. handle_wl_output_geometry state x sp"])
         (simp_all add: listeners_keep_identity listeners_keep_uncreated is_global_remove_def)
  next
    case (OutputMode i)
    then show ?thesis using assms
      by (intro upd [of i _ "handle_wl_output_mode state"])
         (simp_all add: listeners_keep_identity listeners_keep_uncreated is_global_remove_def)
  next
    case (OutputDone i)
    then show ?thesis using assms
      by (intro upd [of i _ "handle_wl_output_done state"])
         (simp_all add: listeners_keep_identity listeners_keep_uncreated is_global_remove_def)
  next
    case (OutputScale i factor)
    then show ?thesis using assms
      by (intro upd [of i _ "\<lambda>x. handle_wl_output_scale state x factor"])
         (simp_all add: listeners_keep_identity listeners_keep_uncreated is_global_remove_def)
  next
    case (OutputName i name)
    then show ?thesis using assms
      by (intro upd [of i _ "\<lambda>x. handle_wl_output_name state x name"])
         (simp_all add: listeners_keep_identity listeners_keep_uncreated is_global_remove_def)
  next
    case (OutputDescription i)
    then show ?thesis using assms
      by (intro upd [of i _ "handle_wl_output_description state"])
         (simp_all add: listeners_keep_identity listeners_keep_uncreated is_global_remove_def)
  next
    case LockLocked
    then show ?thesis using assms
      by (auto simp: ext_session_lock_v1_handle_locked_def ret_def split: if_splits)
  next
    case LockFinished
    then show ?thesis using assms
      by (auto simp: ext_session_lock_v1_handle_finished_def ret_def split: if_splits)
  next
    case (LockSurfaceConfigure i serial w h)
    then show ?thesis using assms
      by (intro upd [of i _ "\<lambda>x. ext_session_lock_surface_v1_handle_configure x serial w h"])
         (simp_all add: listeners_keep_identity listeners_keep_uncreated is_global_remove_def)
  qed
qed

section \<open>Invariants of dispatch\<close>

lemma map_sid_update:
  "sid x' = i \<Longrightarrow> map sid (map (\<lambda>y. if sid y = i then x' else y) xs) = map sid xs"
  by (induction xs) auto


lemma lookup_in_set: "lookup_surface i state = Some x \<Longrightarrow> x \<in> set (surfaces state)"
  by (auto simp: lookup_surface_def find_Some_iff)

lemma distinct_map_remove1: "distinct (map f xs) \<Longrightarrow> distinct (map f (remove1 x xs))"
proof (induction xs)
  case Nil
  show ?case by simp
next
  case (Cons y ys)
  have "set (remove1 x ys) \<subseteq> set ys" by (rule set_remove1_subset)
  then show ?case using Cons by auto
qed

lemma wf_dispatch_event:
  assumes "wf_surfaces state" and "dispatch_event e state = (as, Returns state')"
  shows "wf_surfaces state'"
proof -
  have d: "distinct (map sid (surfaces state))"
    and b: "\<forall>x \<in> set (surfaces state). sid x < next_sid state"
    using assms(1) by (simp_all add: wf_surfaces_def list_all_iff)
  from dispatch_event_surfaces [OF assms(2)] consider
    (same) "surfaces state' = surfaces state" "next_sid state' = next_sid state"
    | (new) name where "surfaces state' = new_surface state name # surfaces state"
        "next_sid state' = Suc (next_sid state)"
    | (remove) x where "surfaces state' = remove1 x (surfaces state)"
        "next_sid state' = next_sid state"
    | (update) i x x' where "lookup_surface i state = Some x" "sid x = i" "keeps_identity x x'"
        "surfaces state' = map (\<lambda>y. if sid y = i then x' else y) (surfaces state)"
        "next_sid state' = next_sid state"
    by blast
  then show ?thesis
  proof cases
    case same
    then show ?thesis using assms(1) by (simp add: wf_surfaces_def)
  next
    case new
    have "sid (new_surface state name) = next_sid state" by (simp add: new_surface_def)
    then show ?thesis using new d b by (auto simp: wf_surfaces_def list_all_iff)
  next
    case remove
    have "set (remove1 x (surfaces state)) \<subseteq> set (surfaces state)" by (rule set_remove1_subset)
    then show ?thesis using remove d b
      by (auto simp: wf_surfaces_def list_all_iff distinct_map_remove1)
  next
    case update
    have sx': "sid x' = i" using update(2,3) by (simp add: keeps_identity_def)
    have "i < next_sid state" using lookup_in_set [OF update(1)] update(2) b by auto
    then have "\<forall>y \<in> set (surfaces state'). sid y < next_sid state'"
      using update(4,5) b sx' by auto
    moreover have "map sid (surfaces state') = map sid (surfaces state)"
      unfolding update(4) by (rule map_sid_update [OF sx'])
    then have "distinct (map sid (surfaces state'))"
      using d by (simp only:)
    ultimately show ?thesis by (simp add: wf_surfaces_def list_all_iff)
  qed
qed


lemma absent_dispatch_event:
  assumes "\<forall>x \<in> set (surfaces state). sid x \<noteq> i" and "i < next_sid state"
    and "dispatch_event e state = (as, Returns state')"
  shows "(\<forall>x \<in> set (surfaces state'). sid x \<noteq> i) \<and> i < next_sid state'"
proof -
  from dispatch_event_surfaces [OF assms(3)] consider
    (same) "surfaces state' = surfaces state" "next_sid state' = next_sid state"
    | (new) name where "surfaces state' = new_surface state name # surfaces state"
        "next_sid state' = Suc (next_sid state)"
    | (remove) x where "surfaces state' = remove1 x (surfaces state)"
        "next_sid state' = next_sid state"
    | (update) j x x' where "lookup_surface j state = Some x" "sid x = j" "keeps_identity x x'"
        "surfaces state' = map (\<lambda>y. if sid y = j then x' else y) (surfaces state)"
        "next_sid state' = next_sid state"
    by blast
  then show ?thesis
  proof cases
    case same
    then show ?thesis using assms(1,2) by simp
  next
    case new
    have "sid (new_surface state name) \<noteq> i" using assms(2) by (simp add: new_surface_def)
    then show ?thesis using new assms(1,2) by simp
  next
    case remove
    have "set (remove1 x (surfaces state)) \<subseteq> set (surfaces state)" by (rule set_remove1_subset)
    then show ?thesis using remove assms(1,2) by auto
  next
    case update
    have sx': "sid x' = j" using update(2,3) by (simp add: keeps_identity_def)
    have "set (map sid (surfaces state')) = set (map sid (surfaces state))"
      unfolding update(4) by (simp only: map_sid_update [OF sx'])
    then have "sid ` set (surfaces state') = sid ` set (surfaces state)" by simp
    then show ?thesis using assms(1,2) update(5) by (metis imageI image_iff)
  qed
qed


section \<open>Invariants along a run\<close>

lemma follows_ret: "T h \<Longrightarrow> Q h x \<Longrightarrow> follows T Q h (ret x)"
  by (simp add: follows_def ret_def)

lemma follows_Returns: "T (h @ as) \<Longrightarrow> Q (h @ as) x \<Longrightarrow> follows T Q h (as, Returns x)"
  by (simp add: follows_def)

lemma follows_Exits: "T (h @ as) \<Longrightarrow> follows T Q h (as, Exits n)"
  by (simp add: follows_def)

lemma follows_Blocks: "T (h @ as) \<Longrightarrow> follows T Q h (as, Blocks)"
  by (simp add: follows_def)

lemma follows_seq:
  assumes "follows T Q h m" and "\<And>h' x. Q h' x \<Longrightarrow> follows T R h' (f x)"
  shows "follows T R h (seq m f)"
proof (cases m)
  case (Pair as r)
  show ?thesis
  proof (cases r)
    case (Returns x)
    then have "Q (h @ as) x" using assms(1) Pair by (simp add: follows_def)
    then have "follows T R (h @ as) (f x)" by (rule assms(2))
    then show ?thesis using Pair Returns
      by (cases "f x"; cases "snd (f x)") (auto simp: follows_def)
  next
    case (Exits n)
    then show ?thesis using assms(1) Pair by (simp add: follows_def)
  next
    case Blocks
    then show ?thesis using assms(1) Pair by (simp add: follows_def)
  qed
qed

lemma seq_assoc: "seq (seq m f) g = seq m (\<lambda>x. seq (f x) g)"
proof (cases m)
  case (Pair as r)
  show ?thesis
  proof (cases r)
    case (Returns x)
    then show ?thesis using Pair
      by (cases "f x"; cases "snd (f x)") (auto simp: seq_def split: prod.splits)
  qed (use Pair in auto)
qed

lemma follows_weaken:
  assumes "follows T Q h m" and "\<And>h' x. Q h' x \<Longrightarrow> Q' h' x"
  shows "follows T Q' h m"
  using assms by (cases m; cases "snd m") (auto simp: follows_def)

lemma invariant_trace: "dispatch_invariant T I \<Longrightarrow> I h s \<Longrightarrow> T h"
  by (auto simp: dispatch_invariant_def)

lemma invariant_event:
  "dispatch_invariant T I \<Longrightarrow> I h s \<Longrightarrow> follows T I h (dispatch_event e s)"
  by (auto simp: dispatch_invariant_def)

lemma invariant_plain:
  assumes "dispatch_invariant T I" and "I h s" and "list_all plain_action as"
  shows "I (h @ as) s"
  using assms(3,2)
proof (induction as arbitrary: h)
  case Nil
  then show ?case by simp
next
  case (Cons a as)
  have "I (h @ [a]) s" using assms(1) Cons.prems by (auto simp: dispatch_invariant_def)
  then have "I ((h @ [a]) @ as) s" using Cons.prems(1) by (intro Cons.IH) simp_all
  then show ?case by simp
qed

lemma follows_plain:
  assumes "dispatch_invariant T I" and "I h s" and "list_all plain_action as"
  shows "follows T I h (as, Returns s)"
proof -
  have "I (h @ as) s" by (rule invariant_plain [OF assms])
  then show ?thesis using invariant_trace [OF assms(1)] by (simp add: follows_def)
qed

lemma follows_plain_Exits:
  assumes "dispatch_invariant T I" and "I h s" and "list_all plain_action as"
  shows "follows T Q h (as, Exits n)"
proof -
  have "I (h @ as) s" by (rule invariant_plain [OF assms])
  then show ?thesis using invariant_trace [OF assms(1)] by (simp add: follows_def)
qed

lemma follows_dispatch_events:
  assumes "dispatch_invariant T I" and "I h state"
  shows "follows T I h (dispatch_events es state)"
  using assms(2)
proof (induction es arbitrary: h state)
  case Nil
  then show ?case using invariant_trace [OF assms(1)] by (simp add: follows_ret)
next
  case (Cons e es)
  show ?case
    unfolding dispatch_events.simps
    by (rule follows_seq [OF invariant_event [OF assms(1) Cons.prems]]) (rule Cons.IH)
qed

lemma follows_dispatch_call:
  assumes "dispatch_invariant T I" and "I h state" and "plain_action a"
  shows "follows T I h (seq ([a], Returns state) (dispatch_events es))"
proof (rule follows_seq [where Q = I])
  show "follows T I h ([a], Returns state)"
    by (rule follows_plain [OF assms(1,2)]) (simp add: assms(3))
  show "follows T I h' (dispatch_events es x)" if "I h' x" for h' x
    using assms(1) that by (rule follows_dispatch_events)
qed

lemma plain_simps:
  "plain_action (Log l m)" "plain_action (Render x)" "plain_action ScheduleAuthIdle"
  "plain_action DisplayConnect" "plain_action GetRegistry" "plain_action Roundtrip"
  "plain_action Dispatch" "plain_action Flush" "plain_action LockManagerLock"
  "plain_action LoopAddFds"
  by (simp_all add: plain_action_def)

lemma follows_roundtrip:
  assumes "dispatch_invariant T I" and "I h state"
  shows "follows T (\<lambda>h' (ok, s). I h' s) h (wl_display_roundtrip d state)"
proof (cases d)
  case Failed
  have "follows T I h ([Roundtrip], Returns state)"
    by (rule follows_plain [OF assms]) (simp add: plain_simps)
  then show ?thesis using Failed by (simp add: wl_display_roundtrip_def follows_def)
next
  case (Events es)
  have "follows T (\<lambda>h' (ok, s). I h' s) h
          (seq (seq ([Roundtrip], Returns state) (dispatch_events es)) (\<lambda>state. ret (True, state)))"
  proof (rule follows_seq [where Q = I])
    show "follows T I h (seq ([Roundtrip], Returns state) (dispatch_events es))"
      by (rule follows_dispatch_call [OF assms]) (simp add: plain_simps)
    show "follows T (\<lambda>h' (ok, s). I h' s) h' (ret (True, x))" if "I h' x" for h' x
      using that invariant_trace [OF assms(1) that] by (simp add: follows_ret)
  qed
  then show ?thesis unfolding Events wl_display_roundtrip_def seq_assoc by simp
qed

lemma follows_wait_locked:
  assumes "dispatch_invariant T I" and "I h state"
  shows "follows T (\<lambda>h' s. I h' s \<and> locked s) h (wait_locked ds state)"
  using assms(2)
proof (induction ds arbitrary: h state)
  case Nil
  then show ?case using invariant_trace [OF assms(1)] by (simp add: follows_def ret_def)
next
  case (Cons d ds)
  show ?case
  proof (cases "locked state")
    case True
    then show ?thesis using Cons.prems invariant_trace [OF assms(1)]
      by (simp add: follows_def ret_def)
  next
    case False
    show ?thesis
    proof (cases d)
      case Failed
      have "follows T (\<lambda>h' s. I h' s \<and> locked s) h
              ([Dispatch, Log LOG_ERROR ''wl_display_dispatch() failed''], Exits 2)"
        by (rule follows_plain_Exits [OF assms(1) Cons.prems]) (simp add: plain_simps)
      then show ?thesis using False Failed by simp
    next
      case (Events es)
      have "follows T (\<lambda>h' s. I h' s \<and> locked s) h
              (seq (seq ([Dispatch], Returns state) (dispatch_events es)) (wait_locked ds))"
      proof (rule follows_seq [where Q = I])
        show "follows T I h (seq ([Dispatch], Returns state) (dispatch_events es))"
          by (rule follows_dispatch_call [OF assms(1) Cons.prems]) (simp add: plain_simps)
        show "follows T (\<lambda>h' s. I h' s \<and> locked s) h' (wait_locked ds x)" if "I h' x" for h' x
          using that by (rule Cons.IH)
      qed
      then show ?thesis using False Events by simp
    qed
  qed
qed

section \<open>The reply of the checker\<close>

lemma comm_in_negative:
  "revents AND POLLIN \<noteq> 0 \<Longrightarrow>
   comm_in revents (Some False) state =
     (ScheduleAuthIdle # map (\<lambda>x. Render (x\<lparr>dirty := True\<rparr>)) (surfaces state),
      Returns (state\<lparr>auth_state := AUTH_STATE_INVALID,
                      failed_attempts := failed_attempts state + 1,
                      surfaces := map (\<lambda>x. x\<lparr>dirty := True\<rparr>) (surfaces state)\<rparr>))"
  by (simp add: comm_in_def damage_state_def render_def Let_def comp_def concat_map_singleton)

lemma comm_in_positive:
  "revents AND POLLIN \<noteq> 0 \<Longrightarrow>
   comm_in revents (Some True) state = ([], Returns (state\<lparr>run_display := False\<rparr>))"
  by (simp add: comm_in_def ret_def)

lemma comm_in_read_fails:
  "revents AND POLLIN \<noteq> 0 \<Longrightarrow> comm_in revents None state = ([], Exits EXIT_FAILURE)"
  by (simp add: comm_in_def)

lemma comm_in_hangup:
  "revents AND POLLIN = 0 \<Longrightarrow> revents AND (POLLHUP OR POLLERR) \<noteq> 0 \<Longrightarrow>
   comm_in revents reply state =
     ([Log LOG_ERROR ''Password checking subprocess crashed; exiting.''], Exits EXIT_FAILURE)"
  by (simp add: comm_in_def)

lemma pollin: "POLLIN AND POLLIN \<noteq> 0"
  by (simp add: POLLIN_def)




section \<open>Invariants along the start-up and the event loop\<close>

lemma follows_main_connect:
  assumes inv: "dispatch_invariant T I"
    and lk: "\<And>h s. I h s \<Longrightarrow> I h (s\<lparr>ext_session_lock_v1 := True\<rparr>)"
    and i0: "I h state0"
  shows "follows T I h (main_connect env state0)"
proof (cases "display_connects env")
  case False
  have "follows T I h ([DisplayConnect, Log LOG_ERROR m], Exits EXIT_FAILURE)" for m
    by (rule follows_plain_Exits [OF inv i0]) (simp add: plain_simps)
  then show ?thesis using False by (simp add: main_connect_def)
next
  case True
  have second: "follows T I h1
     (seq ([LockManagerLock], Returns (s\<lparr>ext_session_lock_v1 := True\<rparr>)) (\<lambda>state.
        seq (wl_display_roundtrip (lock_roundtrip env) state) (\<lambda>(ok, state).
          if \<not> ok then ([], Exits 1) else ret state)))"
    if q: "I h1 s" for h1 s
  proof (rule follows_seq [where Q = I])
    show "follows T I h1 ([LockManagerLock], Returns (s\<lparr>ext_session_lock_v1 := True\<rparr>))"
      by (rule follows_plain [OF inv lk [OF q]]) (simp add: plain_simps)
    show "follows T I h2 (seq (wl_display_roundtrip (lock_roundtrip env) x) (\<lambda>(ok, state).
          if \<not> ok then ([], Exits 1) else ret state))" if q2: "I h2 x" for h2 x
    proof (rule follows_seq [OF follows_roundtrip [OF inv q2]])
      fix h3 and y :: "bool \<times> swaylock_state"
      assume "case y of (ok, s) \<Rightarrow> I h3 s"
      then have "I h3 (snd y)" by (cases y) simp
      then show "follows T I h3 (case y of (ok, state) \<Rightarrow>
          if \<not> ok then ([], Exits 1) else ret state)"
        using invariant_trace [OF inv, of h3 "snd y"]
        by (cases y) (simp add: follows_def ret_def)
    qed
  qed
  have first: "follows T I h1
     (seq (wl_display_roundtrip (registry_roundtrip env) s) (\<lambda>(ok, state).
          if \<not> ok then ([Log LOG_ERROR ''wl_display_roundtrip() failed''], Exits EXIT_FAILURE)
          else if \<not> compositor state then ([Log LOG_ERROR ''Missing wl_compositor''], Exits 1)
          else if \<not> subcompositor state then ([Log LOG_ERROR ''Missing wl_subcompositor''], Exits 1)
          else if \<not> shm state then ([Log LOG_ERROR ''Missing wl_shm''], Exits 1)
          else if \<not> ext_session_lock_manager_v1 state
          then ([Log LOG_ERROR ''Missing ext-session-lock-v1''], Exits 1)
          else
            seq ([LockManagerLock], Returns (state\<lparr>ext_session_lock_v1 := True\<rparr>)) (\<lambda>state.
            seq (wl_display_roundtrip (lock_roundtrip env) state) (\<lambda>(ok, state).
              if \<not> ok then ([], Exits 1) else ret state))))"
    if q: "I h1 s" for h1 s
  proof (rule follows_seq [OF follows_roundtrip [OF inv q]])
    fix h3 and y :: "bool \<times> swaylock_state"
    assume "case y of (ok, s) \<Rightarrow> I h3 s"
    then have q3: "I h3 (snd y)" by (cases y) simp
    have lg: "follows T I h3 ([Log LOG_ERROR m], Exits n)" for m n
      by (rule follows_plain_Exits [OF inv q3]) (simp add: plain_simps)
    show "follows T I h3 (case y of (ok, state) \<Rightarrow>
          if \<not> ok then ([Log LOG_ERROR ''wl_display_roundtrip() failed''], Exits EXIT_FAILURE)
          else if \<not> compositor state then ([Log LOG_ERROR ''Missing wl_compositor''], Exits 1)
          else if \<not> subcompositor state then ([Log LOG_ERROR ''Missing wl_subcompositor''], Exits 1)
          else if \<not> shm state then ([Log LOG_ERROR ''Missing wl_shm''], Exits 1)
          else if \<not> ext_session_lock_manager_v1 state
          then ([Log LOG_ERROR ''Missing ext-session-lock-v1''], Exits 1)
          else
            seq ([LockManagerLock], Returns (state\<lparr>ext_session_lock_v1 := True\<rparr>)) (\<lambda>state.
            seq (wl_display_roundtrip (lock_roundtrip env) state) (\<lambda>(ok, state).
              if \<not> ok then ([], Exits 1) else ret state)))"
      using second [OF q3] lg by (cases y) simp
  qed
  have "follows T I h (seq ([DisplayConnect, GetRegistry], Returns state0) (\<lambda>state.
        seq (wl_display_roundtrip (registry_roundtrip env) state) (\<lambda>(ok, state).
          if \<not> ok then ([Log LOG_ERROR ''wl_display_roundtrip() failed''], Exits EXIT_FAILURE)
          else if \<not> compositor state then ([Log LOG_ERROR ''Missing wl_compositor''], Exits 1)
          else if \<not> subcompositor state then ([Log LOG_ERROR ''Missing wl_subcompositor''], Exits 1)
          else if \<not> shm state then ([Log LOG_ERROR ''Missing wl_shm''], Exits 1)
          else if \<not> ext_session_lock_manager_v1 state
          then ([Log LOG_ERROR ''Missing ext-session-lock-v1''], Exits 1)
          else
            seq ([LockManagerLock], Returns (state\<lparr>ext_session_lock_v1 := True\<rparr>)) (\<lambda>state.
            seq (wl_display_roundtrip (lock_roundtrip env) state) (\<lambda>(ok, state).
              if \<not> ok then ([], Exits 1) else ret state)))))"
  proof (rule follows_seq [where Q = I])
    show "follows T I h ([DisplayConnect, GetRegistry], Returns state0)"
      by (rule follows_plain [OF inv i0]) (simp add: plain_simps)
  qed (rule first)
  then show ?thesis using True by (simp only: main_connect_def not_True_eq_False if_False)
qed

lemma loop_dispatch: "loop_invariant T I \<Longrightarrow> dispatch_invariant T I"
  by (simp add: loop_invariant_def)

lemma follows_callback:
  assumes inv: "loop_invariant T I" and i0: "I h state"
  shows "follows T I h (callback e state)"
proof -
  note dinv = loop_dispatch [OF inv]
  have rd: "I h (state\<lparr>run_display := False\<rparr>)"
    using inv i0 by (simp add: loop_invariant_def)
  show ?thesis
  proof (cases e)
    case (DisplayIn d)
    show ?thesis
    proof (cases d)
      case Failed
      have "follows T I h ([Dispatch], Returns (state\<lparr>run_display := False\<rparr>))"
        by (rule follows_plain [OF dinv rd]) (simp add: plain_simps)
      then show ?thesis using DisplayIn Failed by (simp add: display_in_def)
    next
      case (Events es)
      have "follows T I h (seq ([Dispatch], Returns state) (dispatch_events es))"
        by (rule follows_dispatch_call [OF dinv i0]) (simp add: plain_simps)
      then show ?thesis using DisplayIn Events by (simp add: display_in_def)
    qed
  next
    case (CommIn revents reply)
    show ?thesis
    proof (cases "revents AND POLLIN \<noteq> 0")
      case True
      show ?thesis
      proof (cases reply)
        case None
        have "follows T I h ([], Exits EXIT_FAILURE)"
          by (rule follows_plain_Exits [OF dinv i0]) simp
        then show ?thesis using CommIn True None by (simp add: comm_in_read_fails)
      next
        case (Some verdict)
        show ?thesis
        proof (cases verdict)
          case True
          have "follows T I h ([], Returns (state\<lparr>run_display := False\<rparr>))"
            by (rule follows_plain [OF dinv rd]) simp
          then show ?thesis using CommIn \<open>revents AND POLLIN \<noteq> 0\<close> Some True
            by (simp add: comm_in_positive)
        next
          case False
          have "I h (state\<lparr>auth_state := AUTH_STATE_INVALID,
                      failed_attempts := failed_attempts state + 1,
                      surfaces := map (\<lambda>x. x\<lparr>dirty := True\<rparr>) (surfaces state)\<rparr>)"
            using inv i0 by (simp add: loop_invariant_def)
          then have "follows T I h
             (ScheduleAuthIdle # map (\<lambda>x. Render (x\<lparr>dirty := True\<rparr>)) (surfaces state),
              Returns (state\<lparr>auth_state := AUTH_STATE_INVALID,
                      failed_attempts := failed_attempts state + 1,
                      surfaces := map (\<lambda>x. x\<lparr>dirty := True\<rparr>) (surfaces state)\<rparr>))"
            by (rule follows_plain [OF dinv]) (simp add: plain_simps list_all_iff)
          then show ?thesis using CommIn \<open>revents AND POLLIN \<noteq> 0\<close> Some False
            by (simp add: comm_in_negative)
        qed
      qed
    next
      case False
      then have nin: "revents AND POLLIN = 0" by simp
      show ?thesis
      proof (cases "revents AND (POLLHUP OR POLLERR) \<noteq> 0")
        case True
        have "follows T I h
           ([Log LOG_ERROR ''Password checking subprocess crashed; exiting.''], Exits EXIT_FAILURE)"
          by (rule follows_plain_Exits [OF dinv i0]) (simp add: plain_simps)
        then show ?thesis using CommIn True nin by (simp add: comm_in_hangup)
      next
        case False
        have "follows T I h ([], Returns state)"
          by (rule follows_plain [OF dinv i0]) simp
        then show ?thesis using CommIn False nin by (simp add: comm_in_def ret_def)
      qed
    qed
  next
    case TermIn
    have "follows T I h ([], Returns (state\<lparr>run_display := False\<rparr>))"
      by (rule follows_plain [OF dinv rd]) simp
    then show ?thesis using TermIn by (simp add: term_in_def ret_def)
  qed
qed

lemma follows_loop_poll:
  assumes inv: "loop_invariant T I" and i0: "I h state"
  shows "follows T I h (loop_poll evs state)"
  using i0
proof (induction evs arbitrary: h state)
  case Nil
  then show ?case using invariant_trace [OF loop_dispatch [OF inv]] by (simp add: follows_ret)
next
  case (Cons e evs)
  show ?case
    unfolding loop_poll.simps
    by (rule follows_seq [OF follows_callback [OF inv Cons.prems]]) (rule Cons.IH)
qed

lemma follows_event_loop:
  assumes inv: "loop_invariant T I" and i0: "I h state"
  shows "follows T (\<lambda>h' s. I h' s) h (event_loop turns state)"
  using i0
proof (induction turns arbitrary: h state)
  case Nil
  then show ?case using invariant_trace [OF loop_dispatch [OF inv]]
    by (simp add: follows_def ret_def)
next
  case (Cons turn turns)
  note dinv = loop_dispatch [OF inv]
  obtain flushed ready where t: "turn = (flushed, ready)" by (cases turn)
  show ?case
  proof (cases "run_display state")
    case False
    then show ?thesis using Cons.prems invariant_trace [OF dinv] t
      by (simp add: follows_def ret_def)
  next
    case True
    show ?thesis
    proof (cases flushed)
      case False
      have "follows T I h ([Flush], Returns state)"
        by (rule follows_plain [OF dinv Cons.prems]) (simp add: plain_simps)
      then show ?thesis using True False t by simp
    next
      case flushed: True
      have "follows T I h (seq (seq ([Flush], Returns state) (loop_poll ready)) (event_loop turns))"
      proof (rule follows_seq [where Q = I])
        show "follows T I h (seq ([Flush], Returns state) (loop_poll ready))"
        proof (rule follows_seq [where Q = I])
          show "follows T I h ([Flush], Returns state)"
            by (rule follows_plain [OF dinv Cons.prems]) (simp add: plain_simps)
          show "follows T I h' (loop_poll ready x)" if "I h' x" for h' x
            by (rule follows_loop_poll [OF inv that])
        qed
        show "follows T I h' (event_loop turns x)" if "I h' x" for h' x
          using that by (rule Cons.IH)
      qed
      then show ?thesis using True flushed t by simp
    qed
  qed
qed

section \<open>The milestones are left to \<open>main\<close>\<close>

lemma milestone_simps:
  "\<not> milestone (Log l m)" "\<not> milestone (RegistryBind n s v)" "\<not> milestone SeatAddListener"
  "\<not> milestone (OutputAddListener i)" "\<not> milestone (CompositorCreateSurface i)"
  "\<not> milestone (GetSubsurface i)" "\<not> milestone (SubsurfaceSetSync i)"
  "\<not> milestone (GetLockSurface i)" "\<not> milestone (LockSurfaceAddListener i)"
  "\<not> milestone (SetOpaqueRegion i)" "\<not> milestone (AckConfigure i serial)"
  "\<not> milestone (Render x)" "\<not> milestone (LockSurfaceDestroy i)"
  "\<not> milestone (SubsurfaceDestroy i)" "\<not> milestone (SurfaceDestroy i)"
  "\<not> milestone (DestroyBuffers i)" "\<not> milestone (OutputRelease i)" "\<not> milestone (Free i)"
  "\<not> milestone ScheduleAuthIdle" "\<not> milestone DisplayConnect" "\<not> milestone GetRegistry"
  "\<not> milestone Roundtrip" "\<not> milestone Dispatch" "\<not> milestone Flush"
  "\<not> milestone LockManagerLock" "\<not> milestone LoopAddFds"
  "milestone (WriteFd fd bytes)" "milestone (CloseFd fd)" "milestone Fork"
  "milestone UnlockAndDestroy" "milestone (Pipe p)" "milestone Setsid"
  "milestone (OpenFile path fd)" "milestone (Dup2 fd fd')" "milestone (Chdir path)"
  "milestone (ReadFd fd)"
  by (simp_all add: milestone_def)













lemma daemonize_trace:
  "\<exists>dz r. daemonize d state = (dz, r)
     \<and> list_all (\<lambda>a. (plain_action a \<or> milestone a) \<and> a \<noteq> UnlockAndDestroy) dz
     \<and> writes_own [] dz \<and> count_list dz Fork \<le> 1
     \<and> (r = Returns state \<or> (\<exists>n. r = Exits n))"
proof (cases d)
  case PipeFails
  then show ?thesis by (simp add: daemonize_def milestone_simps plain_simps)
next
  case (Piped fds0 fds1 f)
  then show ?thesis
    by (cases f) (simp_all add: daemonize_def milestone_simps plain_simps)
qed



lemmas demo_eval = main_def main_locked_def main_before_loop_def main_shutdown_def notify_ready_def
      daemonize_def STDOUT_FILENO_def STDERR_FILENO_def
      comm_in_def term_in_def display_in_def damage_state_def render_def
      POLLIN_def POLLHUP_def POLLERR_def
      main_until_locked_def main_startup_def main_connect_def demo_env_def demo_args_def
      default_args_def initial_state_def wl_display_roundtrip_def handle_global_def Let_def
      new_surface_def with_surface_def ret_def put_surface_def handle_wl_output_done_def
      create_surfaces_def create_surface_def select_image_def surface_is_opaque_def
      ext_session_lock_v1_handle_locked_def EXIT_FAILURE_def

section \<open>How the event loop ends\<close>







section \<open>A withdrawn output\<close>

lemma ack_serials_plain: "plain_action a \<Longrightarrow> ack_serials i (h @ [a]) = ack_serials i h"
  by (cases a) (simp_all add: ack_serials_append plain_action_def)

lemma absent_lookup: "\<forall>x \<in> set (surfaces s). sid x \<noteq> i \<Longrightarrow> lookup_surface i s = None"
  by (simp add: lookup_surface_def find_None_iff)

lemma absent_invariant:
  "loop_invariant (\<lambda>h. ack_serials i h = [])
     (\<lambda>h s. ack_serials i h = [] \<and> (\<forall>x \<in> set (surfaces s). sid x \<noteq> i) \<and> i < next_sid s)"
proof -
  let ?T = "\<lambda>h. ack_serials i h = []"
  let ?I = "\<lambda>h s. ack_serials i h = [] \<and> (\<forall>x \<in> set (surfaces s). sid x \<noteq> i) \<and> i < next_sid s"
  have ev: "follows ?T ?I h (dispatch_event e s)" if i: "?I h s" for h s e
  proof -
    have "\<not> has_lock_surface i s"
      using i by (simp add: has_lock_surface_def absent_lookup)
    then have a: "ack_serials i (fst (dispatch_event e s)) = []"
      unfolding dispatch_event_acks by (cases e) simp_all
    have "(\<forall>x \<in> set (surfaces s'). sid x \<noteq> i) \<and> i < next_sid s'"
      if "snd (dispatch_event e s) = Returns s'" for s'
      using absent_dispatch_event [of s i e "fst (dispatch_event e s)" s'] i that
      by (cases "dispatch_event e s") simp
    then show ?thesis using a i
      by (cases "dispatch_event e s"; cases "snd (dispatch_event e s)")
         (auto simp: follows_def ack_serials_append)
  qed
  show ?thesis
    unfolding loop_invariant_def dispatch_invariant_def
    using ev by (simp add: ack_serials_plain)
qed

lemma remove1_distinct_key:
  "distinct (map f xs) \<Longrightarrow> x \<in> set xs \<Longrightarrow> y \<in> set (remove1 x xs) \<Longrightarrow> f y \<noteq> f x"
proof (induction xs)
  case Nil
  then show ?case by simp
next
  case (Cons z zs)
  show ?case
  proof (cases "x = z")
    case True
    then have "y \<in> set zs" and "f z \<notin> f ` set zs" using Cons.prems by simp_all
    then show ?thesis using True by (metis imageI)
  next
    case False
    then have "x \<in> set zs" using Cons.prems(2) by simp
    then show ?thesis using Cons False by (auto simp: image_iff)
  qed
qed

lemma destroy_surface_acks: "ack_serials i (fst (destroy_surface x state)) = []"
  by (simp add: destroy_surface_def)

lemma global_remove_found:
  assumes "find (\<lambda>y. output_global_name y = name) (surfaces state) = Some x"
  shows "handle_global_remove name state
           = (fst (destroy_surface x state),
              Returns (state\<lparr>surfaces := remove1 x (surfaces state)\<rparr>))"
  using assms by (simp add: handle_global_remove_def destroy_surface_def)

lemma removed_is_absent:
  assumes "wf_surfaces state"
    and "find (\<lambda>y. output_global_name y = name) (surfaces state) = Some x"
  shows "(\<forall>y \<in> set (remove1 x (surfaces state)). sid y \<noteq> sid x) \<and> sid x < next_sid state"
proof -
  have x: "x \<in> set (surfaces state)" using assms(2) by (auto simp: find_Some_iff)
  have "distinct (map sid (surfaces state))" using assms(1) by (simp add: wf_surfaces_def)
  then have "\<forall>y \<in> set (remove1 x (surfaces state)). sid y \<noteq> sid x"
    using x remove1_distinct_key [of sid "surfaces state" x] by blast
  moreover have "sid x < next_sid state"
    using assms(1) x by (simp add: wf_surfaces_def list_all_iff)
  ultimately show ?thesis by simp
qed

lemma removed_never_acked:
  assumes wf: "wf_surfaces state"
    and f: "find (\<lambda>y. output_global_name y = name) (surfaces state) = Some x"
    and rd: "run_display state"
  shows "ack_serials (sid x)
           (fst (event_loop ((True, DisplayIn (Events (GlobalRemove name # es)) # evs) # turns)
              state)) = []"
proof -
  let ?i = "sid x"
  let ?T = "\<lambda>h. ack_serials ?i h = []"
  let ?I = "\<lambda>h s. ack_serials ?i h = [] \<and> (\<forall>y \<in> set (surfaces s). sid y \<noteq> ?i) \<and> ?i < next_sid s"
  let ?s' = "state\<lparr>surfaces := remove1 x (surfaces state)\<rparr>"
  let ?h0 = "[Flush, Dispatch] @ fst (destroy_surface x state)"
  note inv = absent_invariant [of ?i]
  have eq: "event_loop ((True, DisplayIn (Events (GlobalRemove name # es)) # evs) # turns) state
        = seq (?h0, Returns ?s')
            (\<lambda>s. seq (seq (dispatch_events es s) (loop_poll evs)) (event_loop turns))"
  proof -
    obtain bs r where de: "dispatch_events es ?s' = (bs, r)" by (cases "dispatch_events es ?s'")
    show ?thesis
    proof (cases r)
      case (Returns x1)
      obtain cs r2 where lp: "loop_poll evs x1 = (cs, r2)" by (cases "loop_poll evs x1")
      show ?thesis
        using rd de Returns lp
        by (cases r2) (simp_all add: display_in_def global_remove_found [OF f] seq_assoc)
    qed (use rd de in \<open>simp_all add: display_in_def global_remove_found [OF f] seq_assoc\<close>)
  qed
  have i0: "?I ?h0 ?s'"
    using removed_is_absent [OF wf f] by (simp add: ack_serials_append destroy_surface_acks)
  have "follows ?T ?I []
          (seq (?h0, Returns ?s')
            (\<lambda>s. seq (seq (dispatch_events es s) (loop_poll evs)) (event_loop turns)))"
  proof (rule follows_seq [where Q = ?I])
    show "follows ?T ?I [] (?h0, Returns ?s')"
      using i0 by (simp add: follows_def)
    show "follows ?T ?I h' (seq (seq (dispatch_events es s) (loop_poll evs)) (event_loop turns))"
      if q: "?I h' s" for h' s
    proof (rule follows_seq [where Q = ?I])
      show "follows ?T ?I h' (seq (dispatch_events es s) (loop_poll evs))"
        by (rule follows_seq [OF follows_dispatch_events [OF loop_dispatch [OF inv] q]])
           (rule follows_loop_poll [OF inv])
      show "follows ?T ?I h2 (event_loop turns s2)" if "?I h2 s2" for h2 s2
        by (rule follows_event_loop [OF inv that])
    qed
  qed
  then show ?thesis unfolding eq by (simp add: follows_def)
qed

lemma removed_batch_never_acked:
  assumes wf: "wf_surfaces state"
    and f: "find (\<lambda>y. output_global_name y = name) (surfaces state) = Some x"
  shows "ack_serials (sid x) (fst (dispatch_events (GlobalRemove name # es) state)) = []"
proof -
  let ?i = "sid x"
  let ?T = "\<lambda>h. ack_serials ?i h = []"
  let ?I = "\<lambda>h s. ack_serials ?i h = [] \<and> (\<forall>y \<in> set (surfaces s). sid y \<noteq> ?i) \<and> ?i < next_sid s"
  let ?s' = "state\<lparr>surfaces := remove1 x (surfaces state)\<rparr>"
  let ?h0 = "fst (destroy_surface x state)"
  note inv = absent_invariant [of ?i]
  have i0: "?I ?h0 ?s'"
    using removed_is_absent [OF wf f] by (simp add: destroy_surface_acks)
  have "follows ?T ?I [] (seq (?h0, Returns ?s') (dispatch_events es))"
  proof (rule follows_seq [where Q = ?I])
    show "follows ?T ?I [] (?h0, Returns ?s')"
      using i0 by (simp add: follows_def)
    show "follows ?T ?I h' (dispatch_events es s)" if "?I h' s" for h' s
      by (rule follows_dispatch_events [OF loop_dispatch [OF inv] that])
  qed
  then show ?thesis by (simp add: global_remove_found [OF f] follows_def)
qed

section \<open>Lock surfaces are requested once\<close>

lemma creates_append: "creates (as @ bs) = creates as @ creates bs"
  by (induction as rule: creates.induct) simp_all

lemma creates_plain: "plain_action a \<Longrightarrow> creates (h @ [a]) = creates h"
  by (cases a) (simp_all add: creates_append plain_action_def)

lemma creates_milestone: "milestone a \<Longrightarrow> creates (h @ [a]) = creates h"
  by (cases a) (simp_all add: creates_append milestone_def)

lemma creates_create_surface: "creates (fst (create_surface state x)) = [sid x]"
  by (simp add: create_surface_def Let_def)

lemma created_create_surface:
  "created (snd (create_surface state x))" "sid (snd (create_surface state x)) = sid x"
  by (simp_all add: create_surface_def Let_def)

lemma with_surface_creates:
  assumes "\<And>x. creates (fst (listener x)) = []"
  shows "creates (fst (with_surface i alive listener state)) = []"
proof (cases "lookup_surface i state")
  case None
  then show ?thesis by (simp add: with_surface_None)
next
  case (Some x)
  then show ?thesis using assms [of x] by (simp add: with_surface_Some)
qed

lemma dispatch_done:
  "dispatch_event (OutputDone i) state =
     (case lookup_surface i state of
        None \<Rightarrow> ([], Returns state)
      | Some x \<Rightarrow>
          if \<not> created x \<and> run_display state
          then (fst (create_surface state x),
                Returns (state\<lparr>surfaces :=
                   map (\<lambda>y. if sid y = i then snd (create_surface state x) else y)
                     (surfaces state)\<rparr>))
          else ([], Returns (put_surface x state)))"
proof (cases "lookup_surface i state")
  case None
  then show ?thesis by (simp add: with_surface_None)
next
  case (Some x)
  have sx: "sid x = i" using Some unfolding lookup_surface_def by (rule find_sid)
  show ?thesis
    unfolding dispatch_event.simps with_surface_Some [OF Some] Some
    using sx by (simp add: handle_wl_output_done_def put_surface_def created_create_surface)
qed

lemma dispatch_event_creates:
  "creates (fst (dispatch_event e state)) =
     (case e of
        OutputDone i \<Rightarrow>
          (case lookup_surface i state of
             None \<Rightarrow> []
           | Some x \<Rightarrow> if \<not> created x \<and> run_display state then [i] else [])
      | _ \<Rightarrow> [])"
proof (cases e)
  case (Global name interface version)
  then show ?thesis by (simp add: handle_global_def ret_def Let_def)
next
  case (GlobalRemove name)
  then show ?thesis
    by (simp add: handle_global_remove_def destroy_surface_def ret_def split: option.splits)
next
  case (OutputGeometry j sp)
  show ?thesis unfolding OutputGeometry dispatch_event.simps wl_event.case
    by (rule with_surface_creates) (simp add: handle_wl_output_geometry_def render_def Let_def)
next
  case (OutputMode j)
  show ?thesis unfolding OutputMode dispatch_event.simps wl_event.case
    by (rule with_surface_creates) (simp add: handle_wl_output_mode_def)
next
  case (OutputDone j)
  show ?thesis
  proof (cases "lookup_surface j state")
    case None
    then show ?thesis unfolding OutputDone dispatch_done by simp
  next
    case (Some x)
    have "sid x = j" using Some unfolding lookup_surface_def by (rule find_sid)
    then show ?thesis unfolding OutputDone dispatch_done using Some
      by (simp add: creates_create_surface)
  qed
next
  case (OutputScale j factor)
  show ?thesis unfolding OutputScale dispatch_event.simps wl_event.case
    by (rule with_surface_creates) (simp add: handle_wl_output_scale_def render_def Let_def)
next
  case (OutputName j name)
  show ?thesis unfolding OutputName dispatch_event.simps wl_event.case
    by (rule with_surface_creates) (simp add: handle_wl_output_name_def)
next
  case (OutputDescription j)
  show ?thesis unfolding OutputDescription dispatch_event.simps wl_event.case
    by (rule with_surface_creates) (simp add: handle_wl_output_description_def)
next
  case LockLocked
  then show ?thesis by (simp add: ext_session_lock_v1_handle_locked_def ret_def)
next
  case LockFinished
  then show ?thesis by (simp add: ext_session_lock_v1_handle_finished_def ret_def)
next
  case (LockSurfaceConfigure j serial w h)
  show ?thesis unfolding LockSurfaceConfigure dispatch_event.simps wl_event.case
    by (rule with_surface_creates) (simp add: configure_ack)
qed

lemma created_kept:
  assumes d: "dispatch_event e s = (as, Returns s')"
    and j: "j < next_sid s" and c: "\<forall>x \<in> set (surfaces s). sid x = j \<longrightarrow> created x"
  shows "j < next_sid s' \<and> (\<forall>x \<in> set (surfaces s'). sid x = j \<longrightarrow> created x)"
proof -
  from dispatch_event_surfaces [OF d] consider
    (same) "surfaces s' = surfaces s" "next_sid s' = next_sid s"
    | (new) name where "surfaces s' = new_surface s name # surfaces s"
        "next_sid s' = Suc (next_sid s)"
    | (remove) x where "surfaces s' = remove1 x (surfaces s)" "next_sid s' = next_sid s"
    | (update) i x x' where "lookup_surface i s = Some x" "sid x = i" "keeps_identity x x'"
        "surfaces s' = map (\<lambda>y. if sid y = i then x' else y) (surfaces s)"
        "next_sid s' = next_sid s"
    by blast
  then show ?thesis
  proof cases
    case same
    then show ?thesis using j c by simp
  next
    case new
    have "sid (new_surface s name) \<noteq> j" using j by (simp add: new_surface_def)
    then show ?thesis using new j c by simp
  next
    case remove
    have "set (remove1 x (surfaces s)) \<subseteq> set (surfaces s)" by (rule set_remove1_subset)
    then show ?thesis using remove j c by auto
  next
    case update
    have x: "x \<in> set (surfaces s)" by (rule lookup_in_set [OF update(1)])
    have "created x'" if "sid x' = j"
    proof -
      have "sid x = j" using that update(3) by (simp add: keeps_identity_def)
      then have "created x" using c x by simp
      then show ?thesis using update(3) by (simp add: keeps_identity_def)
    qed
    then show ?thesis using update(4,5) j c by auto
  qed
qed

lemma uncreated_kept:
  assumes d: "dispatch_event e s = (as, Returns s')"
    and r: "\<not> run_display s" and c: "\<forall>x \<in> set (surfaces s). \<not> created x"
  shows "\<forall>x \<in> set (surfaces s'). \<not> created x"
proof -
  from dispatch_event_surfaces [OF d] r consider
    (same) "surfaces s' = surfaces s"
    | (new) name where "surfaces s' = new_surface s name # surfaces s"
    | (remove) x where "surfaces s' = remove1 x (surfaces s)"
    | (update) i x x' where "lookup_surface i s = Some x" "created x' = created x"
        "surfaces s' = map (\<lambda>y. if sid y = i then x' else y) (surfaces s)"
    by blast
  then show ?thesis
  proof cases
    case same
    then show ?thesis using c by simp
  next
    case new
    have "\<not> created (new_surface s name)" by (simp add: new_surface_def)
    then show ?thesis using new c by simp
  next
    case remove
    have "set (remove1 x (surfaces s)) \<subseteq> set (surfaces s)" by (rule set_remove1_subset)
    then show ?thesis using remove c by auto
  next
    case update
    have "\<not> created x" using lookup_in_set [OF update(1)] c by simp
    then show ?thesis using update(2,3) c by auto
  qed
qed

lemma none_created_invariant: "dispatch_invariant (\<lambda>h. creates h = []) none_created"
proof -
  have ev: "follows (\<lambda>h. creates h = []) none_created h (dispatch_event e s)"
    if i: "none_created h s" for h s e
  proof -
    have r: "\<not> run_display s" and h: "creates h = []" and wf: "wf_surfaces s"
      and c: "\<forall>x \<in> set (surfaces s). \<not> created x"
      using i by (simp_all add: none_created_def list_all_iff)
    have a: "creates (fst (dispatch_event e s)) = []"
      unfolding dispatch_event_creates using r by (cases e) (simp_all split: option.splits)
    have "none_created (h @ fst (dispatch_event e s)) s'"
      if "snd (dispatch_event e s) = Returns s'" for s'
    proof -
      have d: "dispatch_event e s = (fst (dispatch_event e s), Returns s')"
        using that by (cases "dispatch_event e s") simp
      show ?thesis
        using a h wf_dispatch_event [OF wf d] uncreated_kept [OF d r c]
          dispatch_event_frame [OF d] r
        by (simp add: none_created_def creates_append list_all_iff)
    qed
    then show ?thesis using a h
      by (cases "dispatch_event e s"; cases "snd (dispatch_event e s)")
         (auto simp: follows_def creates_append)
  qed
  show ?thesis
    unfolding dispatch_invariant_def
    using ev by (simp add: none_created_def creates_plain)
qed

lemma created_once_unfold:
  "created_once h s =
     (distinct (creates h) \<and> wf_surfaces s
      \<and> (\<forall>i \<in> set (creates h). i < next_sid s
            \<and> (\<forall>x \<in> set (surfaces s). sid x = i \<longrightarrow> created x)))"
  by (simp add: created_once_def list_all_iff)

lemma created_once_event:
  assumes i: "created_once h s"
  shows "follows (\<lambda>h. distinct (creates h)) created_once h (dispatch_event e s)"
proof -
  have dh: "distinct (creates h)" and wf: "wf_surfaces s"
    and old: "\<forall>j \<in> set (creates h). j < next_sid s
            \<and> (\<forall>x \<in> set (surfaces s). sid x = j \<longrightarrow> created x)"
    using i by (simp_all add: created_once_unfold)
  obtain as r where d: "dispatch_event e s = (as, r)" by (cases "dispatch_event e s")
  have shape: "creates as = [] \<or>
     (\<exists>k x. e = OutputDone k \<and> lookup_surface k s = Some x \<and> \<not> created x \<and> run_display s
        \<and> creates as = [k])"
    using dispatch_event_creates [of e s] d by (cases e) (auto split: option.splits if_splits)
  have keep: "\<forall>j \<in> set (creates h). j < next_sid s'
            \<and> (\<forall>x \<in> set (surfaces s'). sid x = j \<longrightarrow> created x)"
    if "r = Returns s'" for s'
    using created_kept [of e s as s'] d that old by blast
  from shape show ?thesis
  proof
    assume n: "creates as = []"
    have "created_once (h @ as) s'" if "r = Returns s'" for s'
      using n dh keep [OF that] wf_dispatch_event [OF wf, of e as s'] d that
      by (simp add: created_once_unfold creates_append)
    then show ?thesis using d n dh by (cases r) (simp_all add: follows_def creates_append)
  next
    assume "\<exists>k x. e = OutputDone k \<and> lookup_surface k s = Some x \<and> \<not> created x \<and> run_display s
        \<and> creates as = [k]"
    then obtain k x where e: "e = OutputDone k" and l: "lookup_surface k s = Some x"
      and nc: "\<not> created x" and rd: "run_display s" and ca: "creates as = [k]"
      by blast
    have sx: "sid x = k" using l unfolding lookup_surface_def by (rule find_sid)
    have xin: "x \<in> set (surfaces s)" by (rule lookup_in_set [OF l])
    have fresh: "k \<notin> set (creates h)" using old xin sx nc by auto
    then have dist: "distinct (creates (h @ as))" using dh ca by (simp add: creates_append)
    have "created_once (h @ as) s'" if rs: "r = Returns s'" for s'
    proof -
      have s': "s' = s\<lparr>surfaces :=
                   map (\<lambda>y. if sid y = k then snd (create_surface s x) else y) (surfaces s)\<rparr>"
        using d [unfolded e dispatch_done] l nc rd rs by simp
      have "k < next_sid s" using wf xin sx by (auto simp: wf_surfaces_def list_all_iff)
      then have k1: "k < next_sid s'" using s' by simp
      have k2: "\<forall>y \<in> set (surfaces s'). sid y = k \<longrightarrow> created y"
        using s' by (auto simp: created_create_surface)
      show ?thesis
        using dist keep [OF rs] k1 k2 wf_dispatch_event [OF wf, of e as s'] d rs ca
        by (simp add: created_once_unfold creates_append)
    qed
    then show ?thesis using d dist by (cases r) (simp_all add: follows_def)
  qed
qed

lemma wf_surfaces_dirty:
  "wf_surfaces s \<Longrightarrow> wf_surfaces (s\<lparr>auth_state := a, failed_attempts := n,
      surfaces := map (\<lambda>x. x\<lparr>dirty := True\<rparr>) (surfaces s)\<rparr>)"
  by (simp add: wf_surfaces_def list_all_iff comp_def)

lemma created_once_invariant: "loop_invariant (\<lambda>h. distinct (creates h)) created_once"
  unfolding loop_invariant_def dispatch_invariant_def
proof (intro conjI allI impI)
  fix h s
  assume "created_once h s"
  then show "distinct (creates h)" by (simp add: created_once_unfold)
next
  fix h s e
  assume "created_once h s"
  then show "follows (\<lambda>h. distinct (creates h)) created_once h (dispatch_event e s)"
    by (rule created_once_event)
next
  fix h s a
  assume "created_once h s \<and> plain_action a"
  then show "created_once (h @ [a]) s" by (simp add: created_once_unfold creates_plain)
next
  fix h s
  assume "created_once h s"
  then show "created_once h (s\<lparr>run_display := False\<rparr>)"
    by (simp add: created_once_unfold wf_surfaces_def)
next
  fix h s
  assume c: "created_once h s"
  then have "wf_surfaces (s\<lparr>auth_state := AUTH_STATE_INVALID,
      failed_attempts := failed_attempts s + 1,
      surfaces := map (\<lambda>x. x\<lparr>dirty := True\<rparr>) (surfaces s)\<rparr>)"
    by (intro wf_surfaces_dirty) (simp add: created_once_unfold)
  then show "created_once h (s\<lparr>auth_state := AUTH_STATE_INVALID,
      failed_attempts := failed_attempts s + 1,
      surfaces := map (\<lambda>x. x\<lparr>dirty := True\<rparr>) (surfaces s)\<rparr>)"
    using c by (auto simp: created_once_unfold)
qed

section \<open>Invariants along \<open>main\<close>\<close>

lemma follows_weaken_trace:
  assumes "follows T Q h m" and "\<And>h'. T h' \<Longrightarrow> T' h'"
  shows "follows T' Q h m"
  using assms by (cases m; cases "snd m") (auto simp: follows_def)

lemma invariant_actions:
  assumes inv: "dispatch_invariant T I"
    and ms: "\<And>h s a. I h s \<Longrightarrow> milestone a \<Longrightarrow> I (h @ [a]) s"
    and i0: "I h s" and as: "list_all (\<lambda>a. plain_action a \<or> milestone a) as"
  shows "I (h @ as) s"
  using as i0
proof (induction as arbitrary: h)
  case Nil
  then show ?case by simp
next
  case (Cons a as)
  have "I (h @ [a]) s"
  proof (cases "milestone a")
    case True
    then show ?thesis using ms Cons.prems(2) by blast
  next
    case False
    then have "plain_action a" using Cons.prems(1) by simp
    then show ?thesis using invariant_plain [OF inv Cons.prems(2), of "[a]"] by simp
  qed
  then have "I ((h @ [a]) @ as) s" using Cons.prems(1) by (intro Cons.IH) simp_all
  then show ?case by simp
qed

lemma follows_main_shutdown:
  assumes inv: "dispatch_invariant T I"
    and ms: "\<And>h s a. I h s \<Longrightarrow> milestone a \<Longrightarrow> I (h @ [a]) s"
    and st: "\<And>h s. I h s \<Longrightarrow> I h (s\<lparr>ext_session_lock_v1 := False\<rparr>)"
    and i0: "I h state"
  shows "follows T Q h (main_shutdown d state)"
proof -
  have "follows T Q h
     (seq ([UnlockAndDestroy], Returns (state\<lparr>ext_session_lock_v1 := False\<rparr>)) (\<lambda>state.
      seq (wl_display_roundtrip d state) (\<lambda>(ok, state). ([], Exits 0))))"
  proof (rule follows_seq [where Q = I])
    have "I (h @ [UnlockAndDestroy]) (state\<lparr>ext_session_lock_v1 := False\<rparr>)"
      by (rule ms [OF st [OF i0]]) (simp add: milestone_simps)
    then show "follows T I h ([UnlockAndDestroy], Returns (state\<lparr>ext_session_lock_v1 := False\<rparr>))"
      using invariant_trace [OF inv] by (simp add: follows_def)
    show "follows T Q h' (seq (wl_display_roundtrip d x) (\<lambda>(ok, state). ([], Exits 0)))"
      if q: "I h' x" for h' x
    proof (rule follows_seq [OF follows_roundtrip [OF inv q]])
      fix h3 and y :: "bool \<times> swaylock_state"
      assume "case y of (ok, s) \<Rightarrow> I h3 s"
      then have "I h3 (snd y)" by (cases y) simp
      then have "T h3" by (rule invariant_trace [OF inv])
      then show "follows T Q h3 (case y of (ok, state) \<Rightarrow> ([], Exits 0))"
        by (cases y) (simp add: follows_def)
    qed
  qed
  then show ?thesis by (simp add: main_shutdown_def)
qed

lemma follows_main_before_loop:
  assumes inv: "dispatch_invariant T I"
    and ms: "\<And>h s a. I h s \<Longrightarrow> milestone a \<Longrightarrow> I (h @ [a]) s"
    and st: "\<And>h s. I h s \<Longrightarrow> I h (s\<lparr>run_display := True\<rparr>)"
      "\<And>h s. I h s \<Longrightarrow> I h (s\<lparr>args := (args s)\<lparr>ready_fd := - 1\<rparr>\<rparr>)"
    and i0: "I h state"
  shows "follows T I h (main_before_loop env state)"
proof -
  have acts: "follows T I h' (as, Returns s)"
    if "I h' s" "list_all (\<lambda>a. plain_action a \<or> milestone a) as" for h' s as
    using invariant_actions [OF inv ms that] invariant_trace [OF inv] by (simp add: follows_def)
  have exits: "follows T I h' (as, Exits n)"
    if "I h' s" "list_all (\<lambda>a. plain_action a \<or> milestone a) as" for h' s as n
    using invariant_actions [OF inv ms that] invariant_trace [OF inv] by (simp add: follows_def)
  have n: "follows T I h (notify_ready (ready_write env) state)"
  proof (cases "0 \<le> ready_fd (args state)")
    case False
    then show ?thesis using acts [OF i0, of "[]"] by (simp add: notify_ready_def ret_def)
  next
    case True
    show ?thesis
    proof (cases "ready_write env = 1")
      case False
      then show ?thesis using True exits [OF i0]
        by (simp add: notify_ready_def milestone_simps plain_simps)
    next
      case w: True
      then show ?thesis using True acts [OF st(2) [OF i0]]
        by (simp add: notify_ready_def milestone_simps)
    qed
  qed
  have dz: "follows T I h'
      (if args_daemonize (args s) then daemonize (daemonize_fares env) s else ret s)"
    if q: "I h' s" for h' s
  proof (cases "args_daemonize (args s)")
    case False
    then show ?thesis using acts [OF q, of "[]"] by (simp add: ret_def)
  next
    case True
    obtain dz r where d: "daemonize (daemonize_fares env) s = (dz, r)"
      and l: "list_all (\<lambda>a. (plain_action a \<or> milestone a) \<and> a \<noteq> UnlockAndDestroy) dz"
      and r: "r = Returns s \<or> (\<exists>n. r = Exits n)"
      using daemonize_trace [of "daemonize_fares env" s] by blast
    have "list_all (\<lambda>a. plain_action a \<or> milestone a) dz" using l by (simp add: list_all_iff)
    then show ?thesis using True d r acts [OF q, of dz] exits [OF q, of dz] by auto
  qed
  have la: "follows T I h' ([LoopAddFds], Returns (s\<lparr>run_display := True\<rparr>))"
    if q: "I h' s" for h' s
    using acts [OF st(1) [OF q]] by (simp add: plain_simps)
  show ?thesis
    unfolding main_before_loop_def
    by (rule follows_seq [OF n], rule follows_seq [OF dz], assumption, rule la)
qed

lemma follows_main_locked:
  assumes inv: "loop_invariant T I"
    and ms: "\<And>h s a. I h s \<Longrightarrow> milestone a \<Longrightarrow> I (h @ [a]) s"
    and st: "\<And>h s. I h s \<Longrightarrow> I h (s\<lparr>run_display := True\<rparr>)"
      "\<And>h s. I h s \<Longrightarrow> I h (s\<lparr>args := (args s)\<lparr>ready_fd := - 1\<rparr>\<rparr>)"
      "\<And>h s. I h s \<Longrightarrow> I h (s\<lparr>ext_session_lock_v1 := False\<rparr>)"
    and i0: "I h state"
  shows "follows T Q h (main_locked env state)"
  unfolding main_locked_def
proof (rule follows_seq [where Q = I])
  show "follows T I h (main_before_loop env state)"
    by (rule follows_main_before_loop [OF loop_dispatch [OF inv] ms st(1,2) i0])
  show "follows T Q h'
          (seq (event_loop (loop_turns env) x) (main_shutdown (final_roundtrip env)))"
    if q: "I h' x" for h' x
    by (rule follows_seq [OF follows_event_loop [OF inv q]])
       (rule follows_main_shutdown [OF loop_dispatch [OF inv] ms st(3)])
qed

section \<open>Lock surfaces over a whole run\<close>

lemma creates_create_all:
  "creates (concat (map (fst \<circ> create_surface s) xs)) = map sid xs"
  by (induction xs) (simp_all add: creates_append creates_create_surface)

lemma creates_renders: "creates (map (\<lambda>x. Render (f x)) xs) = []"
  by (induction xs) simp_all

lemma create_surfaces_once:
  assumes "none_created h s"
  shows "follows (\<lambda>h. distinct (creates h)) created_once h (create_surfaces s)"
proof -
  have h: "creates h = []" and wf: "wf_surfaces s"
    using assms by (simp_all add: none_created_def)
  let ?as = "concat (map fst (map (create_surface s) (surfaces s)))"
  let ?s' = "s\<lparr>surfaces := map snd (map (create_surface s) (surfaces s))\<rparr>"
  have c: "creates (h @ ?as) = map sid (surfaces s)"
    using h by (simp add: creates_append creates_create_all)
  have sids: "map sid (surfaces ?s') = map sid (surfaces s)"
    by (simp add: comp_def created_create_surface)
  have d: "distinct (map sid (surfaces s))" using wf by (simp add: wf_surfaces_def)
  have b: "\<forall>x \<in> set (surfaces s). sid x < next_sid s"
    using wf by (simp add: wf_surfaces_def list_all_iff)
  have wf': "wf_surfaces ?s'"
    using d b unfolding wf_surfaces_def sids by (auto simp: list_all_iff created_create_surface)
  have "created_once (h @ ?as) ?s'"
    unfolding created_once_unfold c
    using d b wf' by (auto simp: created_create_surface)
  then show ?thesis using c d by (simp add: create_surfaces_def follows_def Let_def)
qed

lemma none_created_initial: "none_created [] (initial_state a imgs)"
  by (simp add: none_created_def initial_state_def wf_surfaces_def)

lemma main_creates_once:
  "follows (\<lambda>h. distinct (creates h)) (\<lambda>h s. True) [] (main a imgs env)"
proof -
  let ?T = "\<lambda>h. distinct (creates h)"
  have c: "follows ?T none_created [] (main_connect env (initial_state a imgs))"
  proof (rule follows_weaken_trace)
    show "follows (\<lambda>h. creates h = []) none_created [] (main_connect env (initial_state a imgs))"
      by (rule follows_main_connect [OF none_created_invariant _ none_created_initial])
         (simp add: none_created_def wf_surfaces_def)
  qed simp
  have s: "follows ?T created_once [] (main_startup env (initial_state a imgs))"
    unfolding main_startup_def
    by (rule follows_seq [OF c]) (rule create_surfaces_once)
  have u: "follows ?T (\<lambda>h s. created_once h s \<and> locked s) [] (main_until_locked a imgs env)"
    unfolding main_until_locked_def
    by (rule follows_seq [OF s])
       (rule follows_wait_locked [OF loop_dispatch [OF created_once_invariant]])
  show ?thesis
    unfolding main_def
  proof (rule follows_seq [OF u])
    fix h s
    assume "created_once h s \<and> locked s"
    then have q: "created_once h s" by simp
    show "follows ?T (\<lambda>h s. True) h (main_locked env s)"
      by (rule follows_main_locked [OF created_once_invariant _ _ _ _ q])
         (simp_all add: created_once_unfold creates_milestone wf_surfaces_def)
  qed
qed

lemma dispatch_events_creates:
  "i \<in> set (creates (fst (dispatch_events es s))) \<Longrightarrow> OutputDone i \<in> set es"
proof (induction es arbitrary: s)
  case Nil
  then show ?case by (simp add: ret_def)
next
  case (Cons e es)
  have "i \<in> set (creates (fst (dispatch_event e s)))
        \<or> (\<exists>s1. i \<in> set (creates (fst (dispatch_events es s1))))"
    using Cons.prems unfolding fst_dispatch_events_Cons creates_append
    by (cases "snd (dispatch_event e s)") auto
  then show ?case
  proof
    assume "i \<in> set (creates (fst (dispatch_event e s)))"
    then have "e = OutputDone i"
      unfolding dispatch_event_creates by (cases e) (auto split: option.splits if_splits)
    then show ?thesis by simp
  next
    assume "\<exists>s1. i \<in> set (creates (fst (dispatch_events es s1)))"
    then show ?thesis using Cons.IH by auto
  qed
qed

lemma callback_creates:
  assumes "i \<in> set (creates (fst (callback ev s)))"
  shows "\<exists>es. ev = DisplayIn (Events es) \<and> OutputDone i \<in> set es"
proof (cases ev)
  case (DisplayIn d)
  show ?thesis
  proof (cases d)
    case Failed
    then show ?thesis using assms DisplayIn by (simp add: display_in_def)
  next
    case (Events es)
    have "i \<in> set (creates (fst (dispatch_events es s)))"
      using assms DisplayIn Events by (simp add: display_in_def)
    then show ?thesis using DisplayIn Events dispatch_events_creates by blast
  qed
next
  case (CommIn revents reply)
  have "creates (fst (comm_in revents reply s)) = []"
  proof (cases "revents AND POLLIN \<noteq> 0")
    case True
    show ?thesis
    proof (cases reply)
      case None
      then show ?thesis using True by (simp add: comm_in_read_fails)
    next
      case (Some verdict)
      then show ?thesis using True
        by (cases verdict) (simp_all add: comm_in_negative comm_in_positive creates_renders)
    qed
  next
    case False
    then show ?thesis by (simp add: comm_in_def ret_def)
  qed
  then show ?thesis using assms CommIn by simp
next
  case TermIn
  then show ?thesis using assms by (simp add: term_in_def ret_def)
qed

lemma loop_poll_creates:
  "i \<in> set (creates (fst (loop_poll evs s))) \<Longrightarrow>
     \<exists>es. DisplayIn (Events es) \<in> set evs \<and> OutputDone i \<in> set es"
proof (induction evs arbitrary: s)
  case Nil
  then show ?case by (simp add: ret_def)
next
  case (Cons ev evs)
  have "i \<in> set (creates (fst (callback ev s)))
        \<or> (\<exists>s1. i \<in> set (creates (fst (loop_poll evs s1))))"
    using Cons.prems
    by (cases "callback ev s"; cases "snd (callback ev s)") (auto simp: creates_append)
  then show ?case
  proof
    assume "i \<in> set (creates (fst (callback ev s)))"
    then show ?thesis using callback_creates [of i ev s] by auto
  next
    assume "\<exists>s1. i \<in> set (creates (fst (loop_poll evs s1)))"
    then show ?thesis using Cons.IH by auto
  qed
qed

lemma event_loop_creates:
  "i \<in> set (creates (fst (event_loop turns s))) \<Longrightarrow>
     \<exists>turn \<in> set turns. \<exists>es. DisplayIn (Events es) \<in> set (snd turn) \<and> OutputDone i \<in> set es"
proof (induction turns arbitrary: s)
  case Nil
  then show ?case by (simp add: ret_def split: if_splits)
next
  case (Cons turn turns)
  obtain flushed ready where t: "turn = (flushed, ready)" by (cases turn)
  have "i \<in> set (creates (fst (loop_poll ready s)))
        \<or> (\<exists>s1. i \<in> set (creates (fst (event_loop turns s1))))"
    using Cons.prems unfolding t
    by (cases "loop_poll ready s"; cases "snd (loop_poll ready s)")
       (auto simp: creates_append ret_def split: if_splits)
  then show ?case
  proof
    assume "i \<in> set (creates (fst (loop_poll ready s)))"
    then show ?thesis using loop_poll_creates [of i ready s] t by auto
  next
    assume "\<exists>s1. i \<in> set (creates (fst (event_loop turns s1)))"
    then show ?thesis using Cons.IH by auto
  qed
qed

lemma count_creates: "count_list as (GetLockSurface i) = count_list (creates as) i"
  by (induction as rule: creates.induct) simp_all

lemma distinct_count_list: "distinct xs \<Longrightarrow> count_list xs x \<le> 1"
  by (induction xs) auto

section \<open>The claims\<close>

subsection \<open>C1: the lock is refused or revoked\<close>

text \<open>
  Claim C1, as the code has it. When the server delivers \<open>finished\<close> on the session lock
  object, in whatever state the process is (the lock confirmed or not yet), the handler
  logs the failure and ends the process at once with status 2, which is neither the
  success status nor \<open>EXIT_FAILURE\<close>. Whatever call is dispatching the events (a dispatch of
  the event loop, a round trip, the wait for the lock) ends with that status, and the
  events that follow \<open>finished\<close>, a \<open>locked\<close> among them, are never handled: \<open>state.locked\<close>
  is not set afterwards. Status 2 is not set apart for this condition: \<open>main\<close> returns 2
  as well when the dispatch fails while it waits for the lock, and when the write of the
  readiness notification does not return 1.
\<close>

theorem finished_exits:
  "ext_session_lock_v1_handle_finished state
     = ([Log LOG_ERROR ''Failed to lock session -- is another lockscreen running?''], Exits 2)
   \<and> (2::int) \<noteq> EXIT_SUCCESS \<and> (2::int) \<noteq> EXIT_FAILURE
   \<and> (ext_session_lock_v1 state \<and> LockFinished \<in> set es \<longrightarrow>
        snd (dispatch_events es state) = Exits 2
        \<and> snd (display_in (Events es) state) = Exits 2
        \<and> snd (wl_display_roundtrip (Events es) state) = Exits 2
        \<and> (\<not> locked state \<longrightarrow> snd (wait_locked (Events es # ds) state) = Exits 2))
   \<and> (ext_session_lock_v1 state \<and> LockFinished \<notin> set es \<longrightarrow>
        dispatch_events (es @ LockFinished # es') state
          = (fst (dispatch_events es state)
             @ [Log LOG_ERROR ''Failed to lock session -- is another lockscreen running?''],
             Exits 2))
   \<and> (\<not> locked state \<longrightarrow>
        wait_locked (Failed # ds) state
          = ([Dispatch, Log LOG_ERROR ''wl_display_dispatch() failed''], Exits 2))
   \<and> (0 \<le> ready_fd (args state) \<and> written \<noteq> 1 \<longrightarrow>
        notify_ready written state
          = ([WriteFd (ready_fd (args state)) [CHR 0x0A],
              Log LOG_ERROR ''Failed to send readiness notification''], Exits 2))"
proof (intro conjI impI)
  show "ext_session_lock_v1_handle_finished state
     = ([Log LOG_ERROR ''Failed to lock session -- is another lockscreen running?''], Exits 2)"
    by (simp add: ext_session_lock_v1_handle_finished_def)
  show "(2::int) \<noteq> EXIT_SUCCESS" by (simp add: EXIT_SUCCESS_def)
  show "(2::int) \<noteq> EXIT_FAILURE" by (simp add: EXIT_FAILURE_def)
next
  assume h: "ext_session_lock_v1 state \<and> LockFinished \<in> set es"
  then show d: "snd (dispatch_events es state) = Exits 2"
    by (simp add: dispatch_events_finished)
  then show "snd (display_in (Events es) state) = Exits 2"
    by (simp add: display_in_def snd_seq)
  from d show "snd (wl_display_roundtrip (Events es) state) = Exits 2"
    by (simp add: wl_display_roundtrip_def snd_seq)
  assume "\<not> locked state"
  with d show "snd (wait_locked (Events es # ds) state) = Exits 2"
    by (simp add: snd_seq)
next
  assume "ext_session_lock_v1 state \<and> LockFinished \<notin> set es"
  then show "dispatch_events (es @ LockFinished # es') state
          = (fst (dispatch_events es state)
             @ [Log LOG_ERROR ''Failed to lock session -- is another lockscreen running?''],
             Exits 2)"
    by (simp add: dispatch_events_stop_at_finished)
next
  assume "\<not> locked state"
  then show "wait_locked (Failed # ds) state
          = ([Dispatch, Log LOG_ERROR ''wl_display_dispatch() failed''], Exits 2)"
    by simp
next
  assume "0 \<le> ready_fd (args state) \<and> written \<noteq> 1"
  then show "notify_ready written state
          = ([WriteFd (ready_fd (args state)) [CHR 0x0A],
              Log LOG_ERROR ''Failed to send readiness notification''], Exits 2)"
    by (simp add: notify_ready_def)
qed

theorem finished_exits_witness:
  "ext_session_lock_v1 demo_state \<and> \<not> locked demo_state
   \<and> snd (dispatch_events [LockLocked, LockFinished] demo_state) = Exits 2
   \<and> snd (wait_locked [Events [LockFinished, LockLocked]] demo_state) = Exits 2
   \<and> snd (dispatch_events ([OutputDone 0] @ LockFinished # [LockLocked]) demo_state) = Exits 2
   \<and> 0 \<le> ready_fd (args (demo_state\<lparr>args := demo_args\<rparr>))
   \<and> snd (notify_ready 0 (demo_state\<lparr>args := demo_args\<rparr>)) = Exits 2"
  using finished_exits [of demo_state "[LockLocked, LockFinished]" "[]" "[]" 0]
    finished_exits [of demo_state "[LockFinished, LockLocked]" "[]" "[]" 0]
    finished_exits [of demo_state "[OutputDone 0]" "[]" "[LockLocked]" 0]
    finished_exits [of "demo_state\<lparr>args := demo_args\<rparr>" "[]" "[]" "[]" 0]
  by (simp add: demo_state_def demo_args_def default_args_def)

theorem finished_exits_counterexample:
  "main demo_args [] (demo_env\<lparr>lock_wait := [Failed]\<rparr>)
     = (fst (main_startup demo_env (initial_state demo_args []))
        @ [Dispatch, Log LOG_ERROR ''wl_display_dispatch() failed''],
        Exits 2)
   \<and> main demo_args [] (demo_env\<lparr>ready_write := 0\<rparr>)
     = (fst (main_until_locked demo_args [] demo_env)
        @ [WriteFd 3 [CHR 0x0A], Log LOG_ERROR ''Failed to send readiness notification''],
        Exits 2)
   \<and> LockFinished \<notin> set [Global 1 ''wl_compositor'' 5, Global 2 ''wl_subcompositor'' 1,
                             Global 3 ''wl_shm'' 1, Global 7 ''wl_output'' 4,
                             Global 9 ''ext_session_lock_manager_v1'' 1, OutputDone 0,
                             LockLocked]"
  by (simp add: demo_eval)

subsection \<open>C2: configure events are acknowledged\<close>



subsection \<open>C3: readiness is reported after the lock\<close>




subsection \<open>C4: a negative verdict\<close>




subsection \<open>C5: the channel to the checker breaks\<close>

text \<open>
  Claim C5, as the code has it. When the reply pipe is readable and the reply cannot be
  read, and when the pipe is not readable and signals hang-up or error, the handler ends
  the process at once with \<open>EXIT_FAILURE\<close>, which is not 0; the callbacks and the turns of
  the loop that would follow are not run, so the channel is not tried again. When the pipe
  is readable, the reply is read and handled first, whatever the hang-up and error bits
  say.
\<close>

theorem channel_broken_exits:
  "(revents AND POLLIN \<noteq> 0 \<longrightarrow> comm_in revents None state = ([], Exits EXIT_FAILURE))
   \<and> (revents AND POLLIN = 0 \<and> revents AND (POLLHUP OR POLLERR) \<noteq> 0 \<longrightarrow>
        comm_in revents reply state =
          ([Log LOG_ERROR ''Password checking subprocess crashed; exiting.''], Exits EXIT_FAILURE))
   \<and> EXIT_FAILURE \<noteq> 0
   \<and> (snd (comm_in revents reply state) = Exits k \<longrightarrow>
        loop_poll (CommIn revents reply # evs) state = (fst (comm_in revents reply state), Exits k)
        \<and> (run_display state \<longrightarrow>
             event_loop ((True, CommIn revents reply # evs) # turns) state
               = (Flush # fst (comm_in revents reply state), Exits k)))"
proof (intro conjI impI)
  assume "revents AND POLLIN \<noteq> 0"
  then show "comm_in revents None state = ([], Exits EXIT_FAILURE)"
    by (rule comm_in_read_fails)
next
  assume "revents AND POLLIN = 0 \<and> revents AND (POLLHUP OR POLLERR) \<noteq> 0"
  then show "comm_in revents reply state =
          ([Log LOG_ERROR ''Password checking subprocess crashed; exiting.''], Exits EXIT_FAILURE)"
    by (simp add: comm_in_hangup)
next
  show "EXIT_FAILURE \<noteq> 0" by (simp add: EXIT_FAILURE_def)
next
  assume e: "snd (comm_in revents reply state) = Exits k"
  then show p: "loop_poll (CommIn revents reply # evs) state
                  = (fst (comm_in revents reply state), Exits k)"
    by (cases "comm_in revents reply state") simp
  assume "run_display state"
  then show "event_loop ((True, CommIn revents reply # evs) # turns) state
               = (Flush # fst (comm_in revents reply state), Exits k)"
    using p by simp
qed

theorem channel_broken_exits_witness:
  "POLLIN AND POLLIN \<noteq> 0 \<and> POLLHUP AND POLLIN = 0 \<and> POLLHUP AND (POLLHUP OR POLLERR) \<noteq> 0
   \<and> comm_in POLLIN None demo_state = ([], Exits 1)
   \<and> event_loop [(True, [CommIn POLLHUP None, TermIn]), (True, [TermIn])]
        (demo_state\<lparr>run_display := True\<rparr>)
      = ([Flush, Log LOG_ERROR ''Password checking subprocess crashed; exiting.''], Exits 1)"
  using channel_broken_exits [of POLLIN demo_state None 1 "[]" "[]"]
    channel_broken_exits [of POLLHUP "demo_state\<lparr>run_display := True\<rparr>" None 1 "[TermIn]"
      "[(True, [TermIn])]"]
  by (simp add: POLLIN_def POLLHUP_def POLLERR_def EXIT_FAILURE_def comm_in_def demo_state_def)

theorem channel_broken_exits_counterexample:
  "(POLLIN OR POLLHUP) AND (POLLHUP OR POLLERR) \<noteq> 0
   \<and> comm_in (POLLIN OR POLLHUP) (Some True) demo_state
       = ([], Returns (demo_state\<lparr>run_display := False\<rparr>))"
  by (simp add: POLLIN_def POLLHUP_def POLLERR_def comm_in_def ret_def)

subsection \<open>C6: releasing the lock\<close>




subsection \<open>C7: one lock surface per output\<close>

text \<open>
  Claim C7. Over a whole run of \<open>main\<close>, whatever the server and the checker do, the lock
  surface of a given surface structure (one per output announced) is requested at most
  once. A \<open>done\<close> event for a surface that is already created does nothing, and so does
  one that arrives while \<open>run_display\<close> is false. After the start-up, where \<open>main\<close> itself
  creates the surface of every output on the list, a lock surface is requested only by the
  \<open>done\<close> listener of that very surface: in a dispatch only when the events hold a \<open>done\<close>
  for it, in the event loop only when a display callback dispatches such an event, and
  never by the code of \<open>main\<close> between the wait for the lock and the loop.
\<close>

theorem surface_created_once:
  "count_list (fst (main a imgs env)) (GetLockSurface i) \<le> 1
   \<and> (created x \<longrightarrow> handle_wl_output_done state x = ([], x))
   \<and> (\<not> run_display state \<longrightarrow> handle_wl_output_done state x = ([], x))
   \<and> (i \<in> set (creates (fst (dispatch_events es state))) \<longrightarrow> OutputDone i \<in> set es)
   \<and> (i \<in> set (creates (fst (event_loop turns state))) \<longrightarrow>
        (\<exists>turn \<in> set turns. \<exists>es. DisplayIn (Events es) \<in> set (snd turn) \<and> OutputDone i \<in> set es))
   \<and> creates (fst (main_before_loop env state)) = []"
proof (intro conjI impI)
  have "distinct (creates (fst (main a imgs env)))"
    using main_creates_once [of a imgs env] by (simp add: follows_def)
  then show "count_list (fst (main a imgs env)) (GetLockSurface i) \<le> 1"
    unfolding count_creates by (rule distinct_count_list)
next
  assume "created x"
  then show "handle_wl_output_done state x = ([], x)"
    by (simp add: handle_wl_output_done_def)
next
  assume "\<not> run_display state"
  then show "handle_wl_output_done state x = ([], x)"
    by (simp add: handle_wl_output_done_def)
next
  assume "i \<in> set (creates (fst (dispatch_events es state)))"
  then show "OutputDone i \<in> set es" by (rule dispatch_events_creates)
next
  assume "i \<in> set (creates (fst (event_loop turns state)))"
  then show "\<exists>turn \<in> set turns. \<exists>es. DisplayIn (Events es) \<in> set (snd turn) \<and> OutputDone i \<in> set es"
    by (rule event_loop_creates)
next
  show "creates (fst (main_before_loop env state)) = []"
  proof (cases "daemonize_fares env")
    case PipeFails
    then show ?thesis by (simp add: main_before_loop_def notify_ready_def daemonize_def ret_def)
  next
    case (Piped fds0 fds1 f)
    then show ?thesis
      by (cases f) (simp_all add: main_before_loop_def notify_ready_def daemonize_def ret_def)
  qed
qed

theorem surface_created_once_witness:
  "created demo_surface \<and> \<not> run_display demo_state
   \<and> handle_wl_output_done (demo_state\<lparr>run_display := True\<rparr>) demo_surface = ([], demo_surface)
   \<and> creates (fst (dispatch_events
        [Global 8 ''wl_output'' 4, OutputDone 1, OutputDone 1, OutputDone 0]
        (demo_state\<lparr>run_display := True\<rparr>))) = [1]
   \<and> creates (fst (event_loop
        [(True, [DisplayIn (Events [Global 8 ''wl_output'' 4, OutputDone 1, OutputDone 1])])]
        (demo_state\<lparr>run_display := True\<rparr>))) = [1]
   \<and> count_list (fst (main demo_args [] demo_env)) (GetLockSurface 0) = 1"
  using surface_created_once [of demo_args "[]" demo_env 1 demo_surface
      "demo_state\<lparr>run_display := True\<rparr>"
      "[Global 8 ''wl_output'' 4, OutputDone 1, OutputDone 1, OutputDone 0]"
      "[(True, [DisplayIn (Events [Global 8 ''wl_output'' 4, OutputDone 1, OutputDone 1])])]"]
    surface_created_once [of demo_args "[]" demo_env 0 demo_surface demo_state "[]" "[]"]
  by (simp add: demo_eval demo_state_def demo_surface_def)

subsection \<open>C8: an output is withdrawn\<close>

text \<open>
  Claim C8. When the server withdraws the global of an output, \<open>handle_global_remove\<close>
  destroys the first surface on the list with that global name at once, in the handler
  itself: the lock surface (when there is one) and the other Wayland objects are
  destroyed, the structure is freed and the surface is off the list. Nothing is checked
  about configure events on the way. From then on no configure is acknowledged for that
  surface: not for the events that follow in the same dispatch, a configure for it among
  them, nor for anything the event loop handles later.
\<close>

theorem output_removed:
  "wf_surfaces state \<and> find (\<lambda>y. output_global_name y = name) (surfaces state) = Some x \<longrightarrow>
     handle_global_remove name state
       = (fst (destroy_surface x state), Returns (state\<lparr>surfaces := remove1 x (surfaces state)\<rparr>))
     \<and> (ext_session_lock_surface_v1 x \<longrightarrow>
          LockSurfaceDestroy (sid x) \<in> set (fst (destroy_surface x state)))
     \<and> Free (sid x) \<in> set (fst (destroy_surface x state))
     \<and> ack_serials (sid x) (fst (destroy_surface x state)) = []
     \<and> lookup_surface (sid x) (state\<lparr>surfaces := remove1 x (surfaces state)\<rparr>) = None
     \<and> ack_serials (sid x) (fst (dispatch_events (GlobalRemove name # es) state)) = []
     \<and> (run_display state \<longrightarrow>
          ack_serials (sid x)
            (fst (event_loop ((True, DisplayIn (Events (GlobalRemove name # es)) # evs) # turns)
               state)) = [])"
proof (intro impI)
  assume h: "wf_surfaces state \<and> find (\<lambda>y. output_global_name y = name) (surfaces state) = Some x"
  then have wf: "wf_surfaces state"
    and f: "find (\<lambda>y. output_global_name y = name) (surfaces state) = Some x"
    by simp_all
  have "lookup_surface (sid x) (state\<lparr>surfaces := remove1 x (surfaces state)\<rparr>) = None"
    using removed_is_absent [OF wf f] by (intro absent_lookup) simp
  moreover have "run_display state \<longrightarrow>
          ack_serials (sid x)
            (fst (event_loop ((True, DisplayIn (Events (GlobalRemove name # es)) # evs) # turns)
               state)) = []"
    using removed_never_acked [OF wf f] by simp
  ultimately show "handle_global_remove name state
       = (fst (destroy_surface x state), Returns (state\<lparr>surfaces := remove1 x (surfaces state)\<rparr>))
     \<and> (ext_session_lock_surface_v1 x \<longrightarrow>
          LockSurfaceDestroy (sid x) \<in> set (fst (destroy_surface x state)))
     \<and> Free (sid x) \<in> set (fst (destroy_surface x state))
     \<and> ack_serials (sid x) (fst (destroy_surface x state)) = []
     \<and> lookup_surface (sid x) (state\<lparr>surfaces := remove1 x (surfaces state)\<rparr>) = None
     \<and> ack_serials (sid x) (fst (dispatch_events (GlobalRemove name # es) state)) = []
     \<and> (run_display state \<longrightarrow>
          ack_serials (sid x)
            (fst (event_loop ((True, DisplayIn (Events (GlobalRemove name # es)) # evs) # turns)
               state)) = [])"
    using global_remove_found [OF f] removed_batch_never_acked [OF wf f]
    by (simp add: destroy_surface_acks) (simp add: destroy_surface_def)
qed

theorem output_removed_witness:
  "wf_surfaces (demo_state\<lparr>run_display := True\<rparr>)
   \<and> find (\<lambda>y. output_global_name y = 7) (surfaces (demo_state\<lparr>run_display := True\<rparr>))
       = Some demo_surface
   \<and> ext_session_lock_surface_v1 demo_surface \<and> run_display (demo_state\<lparr>run_display := True\<rparr>)
   \<and> dispatch_events [GlobalRemove 7, LockSurfaceConfigure 0 5 800 600]
        (demo_state\<lparr>run_display := True\<rparr>)
       = ([LockSurfaceDestroy 0, SubsurfaceDestroy 0, SurfaceDestroy 0, SurfaceDestroy 0,
           DestroyBuffers 0, OutputRelease 0, Free 0],
          Returns (demo_state\<lparr>run_display := True, surfaces := []\<rparr>))"
  using output_removed [of "demo_state\<lparr>run_display := True\<rparr>" 7 demo_surface
      "[LockSurfaceConfigure 0 5 800 600]" "[]" "[]"]
  by (simp add: demo_state_def demo_surface_def wf_surfaces_def handle_global_remove_def
      destroy_surface_def with_surface_def ret_def)

subsection \<open>C9: the empty secret\<close>

text \<open>
  Claim C9. Option \<open>-e\<close> sets \<open>args.ignore_empty\<close> (and nothing else) in the state it is
  given. With that flag set, a submit of a zero-length secret reports failure locally,
  writes no request to the pipe and leaves the channel in the state it was in, whatever
  that state is.
\<close>

theorem empty_secret_not_sent:
  "(parse_options_e (Some st) = Some (st\<lparr>args := (args st)\<lparr>ignore_empty := True\<rparr>\<rparr>))
   \<and> parse_options_e None = None
   \<and> (parse_options_e (Some st) = Some st' \<longrightarrow>
        ignore_empty (args st') \<and> submit [] (ignore_empty (args st')) ch = (ReportsFailure, ch))
   \<and> (ignore \<and> length secret = 0 \<longrightarrow>
        fst (submit secret ignore ch) = ReportsFailure
        \<and> requests (snd (submit secret ignore ch)) = requests ch
        \<and> channel (snd (submit secret ignore ch)) = channel ch)"
  by (auto simp: parse_options_e_def submit_def)

theorem empty_secret_not_sent_witness:
  "parse_options_e (Some demo_state)
     = Some (demo_state\<lparr>args := default_args\<lparr>ignore_empty := True\<rparr>\<rparr>)
   \<and> submit [] True \<lparr>channel = Idle, requests = []\<rparr>
       = (ReportsFailure, \<lparr>channel = Idle, requests = []\<rparr>)
   \<and> submit [] False \<lparr>channel = Idle, requests = []\<rparr>
       = (Sent, \<lparr>channel = AwaitingVerdict, requests = [[]]\<rparr>)"
  using empty_secret_not_sent [of demo_state "demo_state\<lparr>args := default_args\<lparr>ignore_empty := True\<rparr>\<rparr>"
      "\<lparr>channel = Idle, requests = []\<rparr>" True "[]"]
  by (simp add: parse_options_e_def submit_def demo_state_def)

subsection \<open>C10: colour arguments\<close>

text \<open>
  Claim C10. For every input string, \<open>parse_color\<close> takes away at most one leading
  \<open>#\<close>. If what is left has a length other than 6 and 8 the result is the default
  \<open>0xFFFFFFFF\<close>, opaque white, and not a failure. If the length is 6 the result is the
  value \<open>strtoul\<close> parsed, shifted left by 8 bits, with the alpha byte \<open>0xFF\<close> in the low
  bits; if it is 8 the result is the parsed value as it is. For six hexadecimal digits the
  parsed value is the 24-bit number they spell, for eight the 32-bit number.
\<close>

theorem parse_color_spec:
  "parse_color s =
     (let r = strip_hash s in
      if length r \<noteq> 6 \<and> length r \<noteq> 8 then 0xFFFFFFFF
      else if length r = 6 then push_bit 8 (ucast (strtoul16 r)) OR 0xFF
      else ucast (strtoul16 r))
   \<and> (length (strip_hash s) = 6 \<and> (\<forall>c \<in> set (strip_hash s). isxdigit c) \<longrightarrow>
        hex_value (strip_hash s) < 2 ^ 24 \<and>
        unat (parse_color s) = hex_value (strip_hash s) * 256 + 255)
   \<and> (length (strip_hash s) = 8 \<and> (\<forall>c \<in> set (strip_hash s). isxdigit c) \<longrightarrow>
        unat (parse_color s) = hex_value (strip_hash s))"
proof (intro conjI impI)
  show "parse_color s =
     (let r = strip_hash s in
      if length r \<noteq> 6 \<and> length r \<noteq> 8 then 0xFFFFFFFF
      else if length r = 6 then push_bit 8 (ucast (strtoul16 r)) OR 0xFF
      else ucast (strtoul16 r))"
    by (rule parse_color_strip)
next
  assume h: "length (strip_hash s) = 6 \<and> (\<forall>c \<in> set (strip_hash s). isxdigit c)"
  then have "hex_value (strip_hash s) < 16 ^ 6"
    using hex_value_bound [of "strip_hash s"] by simp
  then show "hex_value (strip_hash s) < 2 ^ 24" by simp
next
  assume h: "length (strip_hash s) = 6 \<and> (\<forall>c \<in> set (strip_hash s). isxdigit c)"
  then have b: "hex_value (strip_hash s) < 2 ^ 24"
    using hex_value_bound [of "strip_hash s"] by simp
  have "strtoul16 (strip_hash s) = word_of_nat (hex_value (strip_hash s))"
    using h by (intro strtoul16_hex) auto
  moreover have "(ucast (word_of_nat (hex_value (strip_hash s)) :: 64 word) :: 32 word)
                 = word_of_nat (hex_value (strip_hash s))"
    using b by (intro ucast_strtoul_word) simp
  ultimately have "parse_color s = push_bit 8 (word_of_nat (hex_value (strip_hash s))) OR 0xFF"
    using h by (simp add: parse_color_strip)
  then show "unat (parse_color s) = hex_value (strip_hash s) * 256 + 255"
    using b by (simp only: unat_rgb)
next
  assume h: "length (strip_hash s) = 8 \<and> (\<forall>c \<in> set (strip_hash s). isxdigit c)"
  then have "hex_value (strip_hash s) < 16 ^ 8"
    using hex_value_bound [of "strip_hash s"] by simp
  then have b: "hex_value (strip_hash s) < 2 ^ 32" by simp
  have "strtoul16 (strip_hash s) = word_of_nat (hex_value (strip_hash s))"
    using h by (intro strtoul16_hex) auto
  then have "parse_color s = ucast (word_of_nat (hex_value (strip_hash s)) :: 64 word)"
    using h by (simp add: parse_color_strip)
  then show "unat (parse_color s) = hex_value (strip_hash s)"
    using b by (simp only: ucast_strtoul_value)
qed

theorem parse_color_spec_witness:
  "parse_color ''#FF8800'' = 0xFF8800FF \<and> unat (parse_color ''#FF8800'') = 0xFF8800 * 256 + 255
   \<and> parse_color ''12345678'' = 0x12345678 \<and> unat (parse_color ''12345678'') = 0x12345678
   \<and> parse_color ''##123456'' = 0xFFFFFFFF"
  using parse_color_spec [of "''#FF8800''"] parse_color_spec [of "''12345678''"]
    parse_color_spec [of "''##123456''"]
  by (simp add: strip_hash_def hex_value_def isxdigit_def xdigit_val_def strtoul16_def
      strtoul_sign_def strtoul_prefix_def isspace_def)

end
